theory Spec2Isabelle
  imports
    Complex_Main
    "HOL-Library.Word"
    "HOL-Library.AList"
    "HOL-Library.Char_ord"
    "HOL-Library.List_Lexorder"
begin

section \<open>Feature extraction of GauFRe: stride grid, visibility tracking, masked crops\<close>

text \<open>
  A shallow embedding of \<^verbatim>\<open>extract_features.py\<close>. Python integers are \<open>int\<close>.
  The true division \<^verbatim>\<open>/\<close> followed by \<^verbatim>\<open>ceil\<close>, \<^verbatim>\<open>floor\<close> or \<^verbatim>\<open>int\<close> is taken
  over the rationals. In the Grid Aligner the double division gives the same integers
  for every operand below \<open>2^53\<close>, far beyond any tensor dimension; in the driver the
  same holds for the default path, where the scale is 1, while a rescaling by an
  explicit \<^verbatim>\<open>--downsample\<close> is idealised and no statement below depends on it.
  A \<^verbatim>\<open>uint8\<close> numpy array is a record of its shape and its row-major buffer of
  \<open>8 word\<close>. Every exception is a value of \<open>error\<close>; the reflection padding
  of torch raises \<^verbatim>\<open>RuntimeError\<close> when a padding is not smaller than the side it
  pads. The patch encoder, the embedding model, PIL's \<^verbatim>\<open>resize\<close> and the decoding of
  image files are collaborators that are assumed to return.
\<close>

datatype error =
    AssertionError
  | FileNotFoundError
  | ValueError
  | IndexError
  | KeyError
  | NameError
  | ZeroDivisionError
  | RuntimeError

subsection \<open>Grid Aligner (lines 44 to 53, 62 to 71)\<close>

record dino_crop =
  padding_top :: int
  padding_bottom :: int
  padding_left :: int
  padding_right :: int

text \<open>
  What one frame leaves on disk: the shape \<open>(H_14 // 14, W_14 // 14)\<close> of the saved
  feature grid and the padding sidecar. The grid sizes themselves are kept for reference.
\<close>

record patch_feature_map =
  grid_height :: int
  grid_width :: int
  grid_rows :: int
  grid_cols :: int
  crop :: dino_crop

definition grid_align :: "int \<Rightarrow> int \<Rightarrow> error + patch_feature_map" where
  "grid_align H W =
     (let H_14 = \<lceil>rat_of_int H / 14\<rceil> * 14;
          W_14 = \<lceil>rat_of_int W / 14\<rceil> * 14;
          p_top = \<lceil>rat_of_int (H_14 - H) / 2\<rceil>;
          p_bottom = \<lfloor>rat_of_int (H_14 - H) / 2\<rfloor>;
          p_left = \<lceil>rat_of_int (W_14 - W) / 2\<rceil>;
          p_right = \<lfloor>rat_of_int (W_14 - W) / 2\<rfloor>
      in if H + p_top + p_bottom = H_14 \<and> W + p_left + p_right = W_14
         then Inr \<lparr>grid_height = H_14, grid_width = W_14,
                   grid_rows = H_14 div 14, grid_cols = W_14 div 14,
                   crop = \<lparr>padding_top = p_top, padding_bottom = p_bottom,
                            padding_left = p_left, padding_right = p_right\<rparr>\<rparr>
         else Inl AssertionError)"

text \<open>The grid cell a later consumer recovers for the pixel \<open>(y, x)\<close> of the unpadded image.\<close>

definition grid_cell :: "dino_crop \<Rightarrow> int \<Rightarrow> int \<Rightarrow> int \<times> int" where
  "grid_cell c y x = ((y + padding_top c) div 14, (x + padding_left c) div 14)"

text \<open>
  \<^verbatim>\<open>nn.ReflectionPad2d((left, right, top, bottom))\<close> applied to a tensor of height
  \<open>H\<close> and width \<open>W\<close> (lines 54 to 59): torch raises \<^verbatim>\<open>RuntimeError\<close> unless
  every padding is smaller than the side it pads; otherwise the result has the shape
  of the grid.
\<close>

definition reflection_pad :: "dino_crop \<Rightarrow> int \<Rightarrow> int \<Rightarrow> error + (int \<times> int)" where
  "reflection_pad c H W =
     (if padding_left c < W \<and> padding_right c < W
         \<and> padding_top c < H \<and> padding_bottom c < H
      then Inr (H + padding_top c + padding_bottom c, W + padding_left c + padding_right c)
      else Inl RuntimeError)"

subsection \<open>Arrays of \<^verbatim>\<open>uint8\<close> (numpy)\<close>

text \<open>
  A three-dimensional \<^verbatim>\<open>uint8\<close> array: its shape \<open>(H, W, C)\<close> and its buffer in
  row-major order. \<^verbatim>\<open>np.array(img.convert("RGB"))\<close> of a decoded image file is such
  an array with \<open>C = 3\<close> and \<open>H, W \<ge> 1\<close>.
\<close>

record ndarray =
  shape :: "nat \<times> nat \<times> nat"
  data :: "8 word list"

definition rgb_array :: "ndarray \<Rightarrow> bool" where
  "rgb_array a = (case shape a of (H, W, C) \<Rightarrow>
     1 \<le> H \<and> 1 \<le> W \<and> C = 3 \<and> length (data a) = H * W * C)"

text \<open>\<^verbatim>\<open>a.max()\<close>: numpy raises \<^verbatim>\<open>ValueError\<close> on a zero-size array.\<close>

definition amax :: "ndarray \<Rightarrow> error + 8 word" where
  "amax a = (case data a of [] \<Rightarrow> Inl ValueError | v # vs \<Rightarrow> Inr (fold max vs v))"

text \<open>\<^verbatim>\<open>a.sum()\<close>: the accumulator of a \<^verbatim>\<open>uint8\<close> sum is \<^verbatim>\<open>uint64\<close>, which no mask overflows.\<close>

definition asum :: "ndarray \<Rightarrow> nat" where
  "asum a = sum_list (map unat (data a))"

text \<open>\<^verbatim>\<open>a //= d\<close> with a scalar \<open>d\<close>: unsigned floor division of every entry.\<close>

definition floordiv :: "ndarray \<Rightarrow> 8 word \<Rightarrow> ndarray" where
  "floordiv a d = a\<lparr>data := map (\<lambda>v. v div d) (data a)\<rparr>"

text \<open>
  \<^verbatim>\<open>a * b\<close>: the element-wise product with numpy's broadcasting of two arrays of three
  dimensions. An axis broadcasts when the two lengths are equal or one of them is 1;
  the product of two \<^verbatim>\<open>uint8\<close> wraps around.
\<close>

definition broadcast_dim :: "nat \<Rightarrow> nat \<Rightarrow> error + nat" where
  "broadcast_dim m n =
     (if m = n then Inr m else if m = 1 then Inr n else if n = 1 then Inr m
      else Inl ValueError)"

text \<open>\<^verbatim>\<open>a[y, x, c]\<close>, and the entry that broadcasting reads for the index \<open>(i, j, k)\<close>.\<close>

definition entry :: "ndarray \<Rightarrow> nat \<Rightarrow> nat \<Rightarrow> nat \<Rightarrow> 8 word" where
  "entry a y x c = (case shape a of (H, W, C) \<Rightarrow> data a ! ((y * W + x) * C + c))"

definition item :: "ndarray \<Rightarrow> nat \<Rightarrow> nat \<Rightarrow> nat \<Rightarrow> 8 word" where
  "item a i j k = (case shape a of (H, W, C) \<Rightarrow>
     entry a (if H = 1 then 0 else i) (if W = 1 then 0 else j) (if C = 1 then 0 else k))"

definition multiply :: "ndarray \<Rightarrow> ndarray \<Rightarrow> error + ndarray" where
  "multiply a b = (case (shape a, shape b) of ((Ha, Wa, Ca), (Hb, Wb, Cb)) \<Rightarrow>
     (case broadcast_dim Ha Hb of Inl e \<Rightarrow> Inl e | Inr H \<Rightarrow>
     (case broadcast_dim Wa Wb of Inl e \<Rightarrow> Inl e | Inr W \<Rightarrow>
     (case broadcast_dim Ca Cb of Inl e \<Rightarrow> Inl e | Inr C \<Rightarrow>
        Inr \<lparr>shape = (H, W, C),
             data = map (\<lambda>n. item a (n div (W * C)) (n div C mod W) (n mod C)
                            * item b (n div (W * C)) (n div C mod W) (n mod C))
                        [0..<H * W * C]\<rparr>))))"

subsection \<open>Binarised masks and masked crops (lines 80 to 81, 104 to 106)\<close>

text \<open>\<^verbatim>\<open>max(1, mask_data.max())\<close>, the divisor of the binarisation.\<close>

definition divisor :: "ndarray \<Rightarrow> error + 8 word" where
  "divisor mask_data = (case amax mask_data of Inl e \<Rightarrow> Inl e | Inr m \<Rightarrow> Inr (max 1 m))"

text \<open>\<^verbatim>\<open>mask_data //= max(1, mask_data.max())\<close>\<close>

definition binarize :: "ndarray \<Rightarrow> error + ndarray" where
  "binarize mask_data =
     (case divisor mask_data of
        Inl e \<Rightarrow> Inl e
      | Inr d \<Rightarrow> Inr (floordiv mask_data d))"

text \<open>\<^verbatim>\<open>mask_data.sum()\<close> after the division: the visibility score of one mask.\<close>

definition visibility_score :: "ndarray \<Rightarrow> error + nat" where
  "visibility_score mask_im =
     (case binarize mask_im of Inl e \<Rightarrow> Inl e | Inr mask_data \<Rightarrow> Inr (asum mask_data))"

text \<open>\<^verbatim>\<open>mask_data * image\<close>, the array handed to \<^verbatim>\<open>Image.fromarray\<close>.\<close>

definition masked_image :: "ndarray \<Rightarrow> ndarray \<Rightarrow> error + ndarray" where
  "masked_image mask_im image_im =
     (case binarize mask_im of
        Inl e \<Rightarrow> Inl e
      | Inr mask_data \<Rightarrow> multiply mask_data image_im)"

subsection \<open>The sequence directory\<close>

text \<open>
  What the run reads from disk: the subdirectories of the mask root as \<^verbatim>\<open>os.walk\<close>
  lists them (\<open>None\<close> when the root is missing, where indexing the empty walk raises
  \<^verbatim>\<open>IndexError\<close>); for an object id and a file name the array
  \<^verbatim>\<open>np.array(mask.convert("RGB"))\<close> of the mask file; for a file name the array that
  numpy reads from the image file, an image of three channels of 8 bits. \<open>None\<close> is a
  file that does not exist, where \<^verbatim>\<open>Image.open\<close> raises \<^verbatim>\<open>FileNotFoundError\<close>.
\<close>

record sequence_dir =
  mask_dirs :: "string list option"
  mask_files :: "string \<Rightarrow> string \<Rightarrow> ndarray option"
  image_files :: "string \<Rightarrow> ndarray option"

subsection \<open>Visibility Tracker (lines 40, 75 to 85)\<close>

text \<open>
  The dictionary \<^verbatim>\<open>most_visible\<close>, in insertion order: object id, score and file.
  \<open>AList.update\<close> overwrites in place and appends a new key, as a Python dictionary does.
\<close>

type_synonym visible = "(string \<times> (nat \<times> string)) list"

definition update_most_visible :: "visible \<Rightarrow> string \<Rightarrow> nat \<Rightarrow> string \<Rightarrow> visible" where
  "update_most_visible most_visible dir score file =
     (case map_of most_visible dir of
        None \<Rightarrow> AList.update dir (score, file) most_visible
      | Some stored \<Rightarrow>
          if score > fst stored then AList.update dir (score, file) most_visible
          else most_visible)"

text \<open>
  The inner loop over \<^verbatim>\<open>dirs\<close> for one frame. \<^verbatim>\<open>Image.open\<close> raises when the mask file
  is missing; the value of \<^verbatim>\<open>mask.resize((W, H))\<close> is bound to nothing.
\<close>

fun scan_dirs ::
  "(ndarray \<Rightarrow> int \<times> int \<Rightarrow> ndarray) \<Rightarrow> sequence_dir \<Rightarrow> int \<Rightarrow> int \<Rightarrow> string
    \<Rightarrow> visible \<Rightarrow> string list \<Rightarrow> error + visible" where
  "scan_dirs resize seq H W file most_visible [] = Inr most_visible"
| "scan_dirs resize seq H W file most_visible (dir # dirs) =
     (case mask_files seq dir file of
        None \<Rightarrow> Inl FileNotFoundError
      | Some mask_im \<Rightarrow>
          (let resized = resize mask_im (W, H) in
           (case visibility_score mask_im of
              Inl e \<Rightarrow> Inl e
            | Inr score \<Rightarrow>
                scan_dirs resize seq H W file
                  (update_most_visible most_visible dir score file) dirs)))"

text \<open>
  The loop over \<^verbatim>\<open>image_list\<close>; a frame is the shape \<open>(H, W)\<close> of its tensor and its
  file name. The frame is padded before anything is saved and before any mask is
  opened. The patch encoder is assumed to return on the padded tensor; what is saved
  for a frame is its \<open>patch_feature_map\<close>.
\<close>

type_synonym frame = "int \<times> int \<times> string"

fun scan_frames ::
  "(ndarray \<Rightarrow> int \<times> int \<Rightarrow> ndarray) \<Rightarrow> sequence_dir \<Rightarrow> string list
    \<Rightarrow> (string \<times> patch_feature_map) list \<Rightarrow> visible \<Rightarrow> frame list
    \<Rightarrow> error + ((string \<times> patch_feature_map) list \<times> visible)" where
  "scan_frames resize seq dirs saved most_visible [] = Inr (saved, most_visible)"
| "scan_frames resize seq dirs saved most_visible ((H, W, file) # image_list) =
     (case grid_align H W of
        Inl e \<Rightarrow> Inl e
      | Inr g \<Rightarrow>
          (case reflection_pad (crop g) H W of
             Inl e \<Rightarrow> Inl e
           | Inr padded \<Rightarrow>
               (case scan_dirs resize seq H W file most_visible dirs of
                  Inl e \<Rightarrow> Inl e
                | Inr most_visible' \<Rightarrow>
                    scan_frames resize seq dirs (saved @ [(file, g)]) most_visible'
                      image_list)))"

text \<open>
  The observations that a completed scan presents to the update rule, in scan order:
  for every frame and every object the object id, the score of its mask and the file.
\<close>

definition score_of :: "sequence_dir \<Rightarrow> string \<Rightarrow> string \<Rightarrow> nat" where
  "score_of seq dir file =
     (case mask_files seq dir file of
        None \<Rightarrow> 0
      | Some mask_im \<Rightarrow> (case visibility_score mask_im of Inl e \<Rightarrow> 0 | Inr score \<Rightarrow> score))"

definition observations ::
  "sequence_dir \<Rightarrow> string list \<Rightarrow> frame list \<Rightarrow> (string \<times> nat \<times> string) list" where
  "observations seq dirs image_list =
     concat (map (\<lambda>(H, W, file). map (\<lambda>dir. (dir, score_of seq dir file, file)) dirs)
               image_list)"

subsection \<open>Embedding Aggregator (lines 89 to 113)\<close>

text \<open>
  \<^verbatim>\<open>{dir_name: idx for idx, dir_name in enumerate(sorted(dirs))}\<close>: a later index
  overwrites an earlier one of the same name.
\<close>

definition dir_to_idx :: "string list \<Rightarrow> (string \<rightharpoonup> nat)" where
  "dir_to_idx dirs =
     fold (\<lambda>(idx, dir_name) m. m(dir_name \<mapsto> idx)) (enumerate 0 (sort dirs)) Map.empty"

text \<open>A row of \<^verbatim>\<open>clip_embeddings\<close>: still the zeros of \<^verbatim>\<open>np.zeros\<close>, or an embedding.\<close>

datatype 'e row = Zeros | Row 'e

text \<open>
  The loop over \<^verbatim>\<open>most_visible\<close>. The embedding model \<open>clip\<close> (with its input
  transform) is a parameter. Reading a key that \<^verbatim>\<open>dir_to_idx\<close> lacks raises
  \<^verbatim>\<open>KeyError\<close>, writing a row beyond the table \<^verbatim>\<open>IndexError\<close>.
\<close>

fun embed_objects ::
  "(ndarray \<Rightarrow> 'e) \<Rightarrow> sequence_dir \<Rightarrow> (string \<rightharpoonup> nat) \<Rightarrow> 'e row list \<Rightarrow> visible
    \<Rightarrow> error + 'e row list" where
  "embed_objects clip seq idx clip_embeddings [] = Inr clip_embeddings"
| "embed_objects clip seq idx clip_embeddings ((dir, stored) # rest) =
     (case image_files seq (snd stored) of
        None \<Rightarrow> Inl FileNotFoundError
      | Some image_im \<Rightarrow>
     (case mask_files seq dir (snd stored) of
        None \<Rightarrow> Inl FileNotFoundError
      | Some mask_im \<Rightarrow>
     (case masked_image mask_im image_im of
        Inl e \<Rightarrow> Inl e
      | Inr masked \<Rightarrow>
     (case idx dir of
        None \<Rightarrow> Inl KeyError
      | Some i \<Rightarrow>
          if i < length clip_embeddings
          then embed_objects clip seq idx (clip_embeddings[i := Row (clip masked)]) rest
          else Inl IndexError))))"

definition extract_features ::
  "(ndarray \<Rightarrow> int \<times> int \<Rightarrow> ndarray) \<Rightarrow> (ndarray \<Rightarrow> 'e) \<Rightarrow> sequence_dir \<Rightarrow> frame list
    \<Rightarrow> error + ((string \<times> patch_feature_map) list \<times> 'e row list)" where
  "extract_features resize clip seq image_list =
     (case mask_dirs seq of
        None \<Rightarrow> Inl IndexError
      | Some dirs \<Rightarrow>
     (case scan_frames resize seq dirs [] [] image_list of
        Inl e \<Rightarrow> Inl e
      | Inr (saved, most_visible) \<Rightarrow>
     (case embed_objects clip seq (dir_to_idx dirs)
             (replicate (length most_visible) Zeros) most_visible of
        Inl e \<Rightarrow> Inl e
      | Inr clip_embeddings \<Rightarrow> Inr (saved, clip_embeddings))))"

subsection \<open>Sequence Driver (lines 139 to 168)\<close>

text \<open>\<^verbatim>\<open>int(q)\<close> truncates towards zero.\<close>

definition py_int :: "rat \<Rightarrow> int" where
  "py_int q = (if 0 \<le> q then \<lfloor>q\<rfloor> else \<lceil>q\<rceil>)"

text \<open>
  Lines 147 to 159 for one image: the global \<^verbatim>\<open>WARNED\<close> is \<open>None\<close> while no
  assignment has bound it, and reading it then raises \<^verbatim>\<open>NameError\<close>. The result is
  \<^verbatim>\<open>global_down\<close> and the new state of \<^verbatim>\<open>WARNED\<close>.
\<close>

definition downscale :: "int \<Rightarrow> bool option \<Rightarrow> int \<Rightarrow> int \<Rightarrow> error + (rat \<times> bool option)" where
  "downscale downsample WARNED orig_w orig_h =
     (if downsample = - 1 then
        (if orig_h > 1080 then
           (case WARNED of
              None \<Rightarrow> Inl NameError
            | Some warned \<Rightarrow>
                Inr (rat_of_int orig_h / 1080, if \<not> warned then Some True else Some warned))
         else Inr (1, WARNED))
      else if downsample = 0 then Inl ZeroDivisionError
      else Inr (rat_of_int orig_w / rat_of_int downsample, WARNED))"

text \<open>
  The loop over \<^verbatim>\<open>files\<close>: an image is the shape \<open>(orig_h, orig_w)\<close> that
  \<^verbatim>\<open>cv2.imread\<close> decoded and its file name; \<^verbatim>\<open>cv2.resize\<close> to \<open>(w, h)\<close> gives a tensor
  of shape \<open>(h, w, 3)\<close>.
\<close>

fun load_images ::
  "int \<Rightarrow> bool option \<Rightarrow> frame list \<Rightarrow> frame list \<Rightarrow> error + frame list" where
  "load_images downsample WARNED img_list [] = Inr img_list"
| "load_images downsample WARNED img_list ((orig_h, orig_w, file) # files) =
     (case downscale downsample WARNED orig_w orig_h of
        Inl e \<Rightarrow> Inl e
      | Inr (global_down, WARNED') \<Rightarrow>
          if global_down = 0 then Inl ZeroDivisionError
          else load_images downsample WARNED'
                 (img_list @ [(py_int (rat_of_int orig_h / global_down),
                               py_int (rat_of_int orig_w / global_down), file)])
                 files)"

definition main ::
  "(ndarray \<Rightarrow> int \<times> int \<Rightarrow> ndarray) \<Rightarrow> (ndarray \<Rightarrow> 'e) \<Rightarrow> sequence_dir \<Rightarrow> int \<Rightarrow> frame list
    \<Rightarrow> error + ((string \<times> patch_feature_map) list \<times> 'e row list)" where
  "main resize clip seq downsample files =
     (case load_images downsample None [] files of
        Inl e \<Rightarrow> Inl e
      | Inr img_list \<Rightarrow> extract_features resize clip seq img_list)"

subsection \<open>Example inputs\<close>

text \<open>Arrays of one row of two pixels, used to run the definitions.\<close>

definition binary_mask :: ndarray where
  "binary_mask = \<lparr>shape = (1, 2, 3), data = [0, 0, 0, 255, 255, 255]\<rparr>"

definition zero_mask :: ndarray where
  "zero_mask = \<lparr>shape = (1, 2, 3), data = [0, 0, 0, 0, 0, 0]\<rparr>"

definition small_image :: ndarray where
  "small_image = \<lparr>shape = (1, 2, 3), data = [10, 20, 30, 40, 50, 60]\<rparr>"

definition other_image :: ndarray where
  "other_image = \<lparr>shape = (1, 2, 3), data = [1, 2, 3, 4, 5, 6]\<rparr>"

text \<open>
  Stand-ins for the two collaborators: a resize that returns its image, and an
  embedding that is the buffer of the crop.
\<close>

definition keep_size :: "ndarray \<Rightarrow> int \<times> int \<Rightarrow> ndarray" where
  "keep_size im wh = im"

definition raw_pixels :: "ndarray \<Rightarrow> 8 word list" where
  "raw_pixels im = data im"

text \<open>
  Three sequence directories: one object whose mask is all zero in every frame; two
  objects of which one has no mask file; two objects with all their files, where the
  mask of the chair is all zero in the first frame.
\<close>

definition zero_seq :: sequence_dir where
  "zero_seq = \<lparr>mask_dirs = Some [''chair''],
     mask_files = (\<lambda>dir file. Some zero_mask),
     image_files = (\<lambda>file. Some small_image)\<rparr>"

definition missing_seq :: sequence_dir where
  "missing_seq = \<lparr>mask_dirs = Some [''table'', ''chair''],
     mask_files = (\<lambda>dir file. if dir = ''table'' then Some binary_mask else None),
     image_files = (\<lambda>file. Some small_image)\<rparr>"

definition full_seq :: sequence_dir where
  "full_seq = \<lparr>mask_dirs = Some [''table'', ''chair''],
     mask_files = (\<lambda>dir file.
       if dir = ''chair'' \<and> file = ''0001.png'' then Some zero_mask else Some binary_mask),
     image_files = (\<lambda>file. if file = ''0001.png'' then Some small_image else Some other_image)\<rparr>"

subsection \<open>Arithmetic of the stride grid\<close>

lemma ceiling_div14: "\<lceil>rat_of_int H / 14\<rceil> = - ((- H) div 14)"
proof -
  have "\<lceil>rat_of_int H / rat_of_int 14\<rceil> = - ((- H) div 14)"
    by (rule ceiling_divide_eq_div)
  then show ?thesis by simp
qed

lemma ceiling_div2: "\<lceil>rat_of_int d / 2\<rceil> = - ((- d) div 2)"
proof -
  have "\<lceil>rat_of_int d / rat_of_int 2\<rceil> = - ((- d) div 2)"
    by (rule ceiling_divide_eq_div)
  then show ?thesis by simp
qed

lemma floor_div2: "\<lfloor>rat_of_int d / 2\<rfloor> = d div 2"
proof -
  have "\<lfloor>rat_of_int d / rat_of_int 2\<rfloor> = d div 2"
    by (rule floor_divide_of_int_eq)
  then show ?thesis by simp
qed

lemma ceil_floor_split: "- ((- d) div 2) + d div 2 = (d::int)"
  by presburger

lemma ceil_floor_gap: "\<bar>- ((- d) div 2) - d div 2\<bar> \<le> (1::int)"
  by presburger

lemma stride_mult_bounds:
  "(H::int) \<le> - ((- H) div 14) * 14 \<and> - ((- H) div 14) * 14 < H + 14
   \<and> (- ((- H) div 14) * 14) mod 14 = 0"
  by presburger

lemma grid_align_Inr:
  "grid_align H W =
     Inr \<lparr>grid_height = - ((- H) div 14) * 14, grid_width = - ((- W) div 14) * 14,
          grid_rows = - ((- H) div 14), grid_cols = - ((- W) div 14),
          crop = \<lparr>padding_top = - ((- (- ((- H) div 14) * 14 - H)) div 2),
                   padding_bottom = (- ((- H) div 14) * 14 - H) div 2,
                   padding_left = - ((- (- ((- W) div 14) * 14 - W)) div 2),
                   padding_right = (- ((- W) div 14) * 14 - W) div 2\<rparr>\<rparr>"
proof -
  have rows: "(- ((- H) div 14) * 14) div 14 = - ((- H) div 14)"
    and cols: "(- ((- W) div 14) * 14) div 14 = - ((- W) div 14)"
    by simp_all
  have "H + - ((- (- ((- H) div 14) * 14 - H)) div 2) + (- ((- H) div 14) * 14 - H) div 2
          = - ((- H) div 14) * 14"
    using ceil_floor_split [of "- ((- H) div 14) * 14 - H"] by linarith
  moreover
  have "W + - ((- (- ((- W) div 14) * 14 - W)) div 2) + (- ((- W) div 14) * 14 - W) div 2
          = - ((- W) div 14) * 14"
    using ceil_floor_split [of "- ((- W) div 14) * 14 - W"] by linarith
  ultimately show ?thesis
    unfolding grid_align_def Let_def ceiling_div14 ceiling_div2 floor_div2 rows cols
    by (simp only: if_True simp_thms)
qed

lemma pad_below_side:
  fixes H :: int
  assumes "6 \<le> H"
  shows "- ((- (- ((- H) div 14) * 14 - H)) div 2) < H
    \<and> (- ((- H) div 14) * 14 - H) div 2 < H"
proof -
  define d where "d = - ((- H) div 14) * 14 - H"
  have d: "0 \<le> d \<and> d \<le> 13"
    unfolding d_def by presburger
  have small: "d \<le> 8" if "H < 14"
  proof -
    from that assms have "(- H) div 14 = - 1" by presburger
    then show ?thesis unfolding d_def using assms by simp
  qed
  have "- ((- d) div 2) < H \<and> d div 2 < H"
  proof (cases "H < 14")
    case True
    with small have "d \<le> 8" by simp
    with d assms show ?thesis by presburger
  next
    case False
    with d show ?thesis by presburger
  qed
  then show ?thesis unfolding d_def .
qed

lemma pad_not_below_side:
  fixes H :: int
  assumes "H < 6"
  shows "\<not> (- ((- (- ((- H) div 14) * 14 - H)) div 2) < H)"
proof -
  define d where "d = - ((- H) div 14) * 14 - H"
  have d: "0 \<le> d \<and> d \<le> 13"
    unfolding d_def by presburger
  have big: "9 \<le> d" if "1 \<le> H"
  proof -
    from that assms have "(- H) div 14 = - 1" by presburger
    then show ?thesis unfolding d_def using assms by simp
  qed
  have "\<not> (- ((- d) div 2) < H)"
  proof (cases "1 \<le> H")
    case True
    with big have "9 \<le> d" by simp
    with assms show ?thesis by presburger
  next
    case False
    with d show ?thesis by presburger
  qed
  then show ?thesis unfolding d_def .
qed

text \<open>The padding of a frame succeeds exactly when both sides are at least 6.\<close>

lemma reflection_pad_grid:
  "\<exists>g. grid_align H W = Inr g
     \<and> reflection_pad (crop g) H W =
         (if 6 \<le> H \<and> 6 \<le> W then Inr (grid_height g, grid_width g) else Inl RuntimeError)"
proof -
  define GH where "GH = - ((- H) div 14) * 14"
  define GW where "GW = - ((- W) div 14) * 14"
  define pt where "pt = - ((- (GH - H)) div 2)"
  define pb where "pb = (GH - H) div 2"
  define pl where "pl = - ((- (GW - W)) div 2)"
  define pr where "pr = (GW - W) div 2"
  define c where "c = \<lparr>padding_top = pt, padding_bottom = pb,
                         padding_left = pl, padding_right = pr\<rparr>"
  define g where "g = \<lparr>grid_height = GH, grid_width = GW,
                         grid_rows = - ((- H) div 14), grid_cols = - ((- W) div 14), crop = c\<rparr>"
  have ga: "grid_align H W = Inr g"
    unfolding g_def c_def pt_def pb_def pl_def pr_def GH_def GW_def by (rule grid_align_Inr)
  have sel: "crop g = c" "grid_height g = GH" "grid_width g = GW"
    "padding_top c = pt" "padding_bottom c = pb" "padding_left c = pl" "padding_right c = pr"
    by (simp_all add: g_def c_def)
  have tot: "H + pt + pb = GH" "W + pl + pr = GW"
    using ceil_floor_split [of "GH - H"] ceil_floor_split [of "GW - W"]
    unfolding pt_def pb_def pl_def pr_def by linarith+
  have rp: "reflection_pad (crop g) H W =
         (if 6 \<le> H \<and> 6 \<le> W then Inr (grid_height g, grid_width g) else Inl RuntimeError)"
  proof (cases "6 \<le> H \<and> 6 \<le> W")
    case True
    then have "6 \<le> H" and "6 \<le> W" by simp_all
    from pad_below_side [OF this(1)] pad_below_side [OF this(2)]
    have "pt < H" "pb < H" "pl < W" "pr < W"
      unfolding pt_def pb_def pl_def pr_def GH_def GW_def by blast+
    with True tot show ?thesis
      unfolding reflection_pad_def sel by (simp only: if_True simp_thms)
  next
    case False
    then have "H < 6 \<or> W < 6" by linarith
    then have "\<not> pt < H \<or> \<not> pl < W"
      using pad_not_below_side [of H] pad_not_below_side [of W]
      unfolding pt_def pl_def GH_def GW_def by blast
    then have "\<not> (pl < W \<and> pr < W \<and> pt < H \<and> pb < H)"
      by blast
    with False show ?thesis
      unfolding reflection_pad_def sel by (simp only: if_False)
  qed
  from ga rp show ?thesis by blast
qed

lemma frame_not_padded:
  assumes "H < 6 \<or> W < 6" and "grid_align H W = Inr g"
  shows "reflection_pad (crop g) H W = Inl RuntimeError"
proof -
  from assms(1) have "\<not> (6 \<le> H \<and> 6 \<le> W)" by linarith
  with reflection_pad_grid [of H W] assms(2) show ?thesis
    by (auto simp only: sum.inject if_False)
qed

subsection \<open>Arrays: maximum, division by the maximum, products\<close>

lemma amax_Max: "data a \<noteq> [] \<Longrightarrow> amax a = Inr (Max (set (data a)))"
  by (cases "data a") (simp_all add: amax_def Max.set_eq_fold [symmetric])

lemma word8_div_max:
  fixes v m :: "8 word"
  assumes "v \<le> m"
  shows "v div max 1 m = (if v = m \<and> v \<noteq> 0 then 1 else 0)"
proof (cases "m = 0")
  case True
  with assms have "v = 0" by simp
  with True show ?thesis by simp
next
  case False
  then have "1 \<le> m" by (simp add: word_le_nat_alt unat_eq_0 Suc_leI unat_gt_0)
  then have d: "max 1 m = m" by (simp add: max_def)
  show ?thesis
  proof (cases "v = m")
    case True
    with False d show ?thesis by (simp add: div_word_self)
  next
    case neq: False
    with assms have "v < m" by simp
    with neq d show ?thesis by (simp add: div_word_less)
  qed
qed

lemma flat_index:
  fixes y x c H W C :: nat
  assumes "y < H" and "x < W" and "c < C"
  shows "(y * W + x) * C + c < H * W * C"
    and "((y * W + x) * C + c) div (W * C) = y"
    and "((y * W + x) * C + c) div C mod W = x"
    and "((y * W + x) * C + c) mod C = c"
proof -
  have q: "((y * W + x) * C + c) div C = y * W + x"
    using assms(3) by simp
  have "y * W + x < Suc y * W"
    using assms(2) by simp
  also have "\<dots> \<le> H * W"
    using assms(1) by (intro mult_le_mono1) simp
  finally have r: "y * W + x < H * W" .
  have "(y * W + x) * C + c < Suc (y * W + x) * C"
    using assms(3) by simp
  also have "\<dots> \<le> (H * W) * C"
    using r by (intro mult_le_mono1) simp
  finally show "(y * W + x) * C + c < H * W * C" .
  have "((y * W + x) * C + c) div (W * C) = ((y * W + x) * C + c) div C div W"
    by (simp add: mult.commute [of W C] div_mult2_eq)
  also have "\<dots> = y"
    unfolding q using assms(2) by simp
  finally show "((y * W + x) * C + c) div (W * C) = y" .
  show "((y * W + x) * C + c) div C mod W = x"
    unfolding q using assms(2) by simp
  show "((y * W + x) * C + c) mod C = c"
    using assms(3) by simp
qed

lemma binarize_data:
  assumes "data a \<noteq> []"
  shows "binarize a = Inr (a\<lparr>data := map (\<lambda>v. if v = Max (set (data a)) \<and> v \<noteq> 0 then 1 else 0) (data a)\<rparr>)"
proof -
  have "v div max 1 (Max (set (data a))) = (if v = Max (set (data a)) \<and> v \<noteq> 0 then 1 else 0)"
    if "v \<in> set (data a)" for v
    using that by (intro word8_div_max) simp
  then have "map (\<lambda>v. v div max 1 (Max (set (data a)))) (data a)
      = map (\<lambda>v. if v = Max (set (data a)) \<and> v \<noteq> 0 then 1 else 0) (data a)"
    by (intro map_cong) simp_all
  then show ?thesis
    using assms by (simp add: binarize_def divisor_def amax_Max floordiv_def)
qed

lemma sum_list_indicator:
  "sum_list (map (\<lambda>v. unat (if P v then 1 else 0 :: 8 word)) xs) = length (filter P xs)"
  by (induction xs) simp_all

lemma visibility_score_count:
  assumes "data a \<noteq> []"
  shows "visibility_score a = Inr (length (filter (\<lambda>v. v = Max (set (data a)) \<and> v \<noteq> 0) (data a)))"
  using assms by (simp add: visibility_score_def binarize_data asum_def comp_def sum_list_indicator)

lemma multiply_same_shape:
  assumes "shape a = (H, W, C)" and "shape b = (H, W, C)"
  shows "multiply a b = Inr \<lparr>shape = (H, W, C),
             data = map (\<lambda>n. item a (n div (W * C)) (n div C mod W) (n mod C)
                            * item b (n div (W * C)) (n div C mod W) (n mod C))
                        [0..<H * W * C]\<rparr>"
  using assms by (simp add: multiply_def broadcast_dim_def)

lemma item_entry:
  assumes "shape a = (H, W, C)" and "y < H" and "x < W" and "c < C"
  shows "item a y x c = entry a y x c"
  using assms by (auto simp add: item_def)

lemma entry_multiply:
  assumes "shape a = (H, W, C)" and "shape b = (H, W, C)"
    and "multiply a b = Inr p" and "y < H" and "x < W" and "c < C"
  shows "entry p y x c = entry a y x c * entry b y x c"
proof -
  let ?n = "(y * W + x) * C + c"
  note ix = flat_index [OF assms(4,5,6)]
  have p: "p = \<lparr>shape = (H, W, C),
             data = map (\<lambda>n. item a (n div (W * C)) (n div C mod W) (n mod C)
                            * item b (n div (W * C)) (n div C mod W) (n mod C))
                        [0..<H * W * C]\<rparr>"
    using multiply_same_shape [OF assms(1,2)] assms(3) by simp
  have "entry p y x c = item a y x c * item b y x c"
    unfolding p entry_def using ix by simp
  then show ?thesis
    by (simp add: item_entry [OF assms(1) assms(4,5,6)] item_entry [OF assms(2) assms(4,5,6)])
qed

subsection \<open>The update rule and the scan\<close>

lemma map_of_update_most_visible:
  "map_of (update_most_visible mv d s f) k =
     (if k = d
      then (case map_of mv d of
              None \<Rightarrow> Some (s, f)
            | Some stored \<Rightarrow> if fst stored < s then Some (s, f) else Some stored)
      else map_of mv k)"
  by (simp add: update_most_visible_def update_conv' split: option.splits)

lemma keys_update_most_visible:
  "fst ` set (update_most_visible mv d s f) = insert d (fst ` set mv)"
proof (cases "map_of mv d")
  case None
  then show ?thesis by (simp add: update_most_visible_def dom_update)
next
  case (Some stored)
  then have "d \<in> fst ` set mv"
    by (metis map_of_eq_None_iff option.distinct(1))
  with Some show ?thesis
    by (auto simp add: update_most_visible_def dom_update)
qed

lemma distinct_update_most_visible:
  "distinct (map fst mv) \<Longrightarrow> distinct (map fst (update_most_visible mv d s f))"
  by (simp add: update_most_visible_def distinct_update split: option.splits)

lemma tracked_first_maximum:
  fixes obs :: "(string \<times> nat \<times> string) list"
  defines "track \<equiv> \<lambda>obs. fold (\<lambda>(d, s, f) mv. update_most_visible mv d s f) obs []"
  shows "(dir \<notin> fst ` set obs \<longrightarrow> map_of (track obs) dir = None)
    \<and> (dir \<in> fst ` set obs \<longrightarrow>
         (\<exists>pre post s f. obs = pre @ (dir, s, f) # post
            \<and> map_of (track obs) dir = Some (s, f)
            \<and> (\<forall>(d, s', f')\<in>set pre. d = dir \<longrightarrow> s' < s)
            \<and> (\<forall>(d, s', f')\<in>set post. d = dir \<longrightarrow> s' \<le> s)))"
proof (induction obs rule: rev_induct)
  case Nil
  show ?case by (simp add: track_def)
next
  case (snoc ob obs)
  obtain d s f where ob: "ob = (d, s, f)"
    by (cases ob)
  have step: "track (obs @ [ob]) = update_most_visible (track obs) d s f"
    by (simp add: track_def ob)
  show ?case
  proof (cases "d = dir")
    case False
    show ?thesis
    proof (cases "dir \<in> fst ` set obs")
      case True
      with snoc obtain pre post s1 f1 where o: "obs = pre @ (dir, s1, f1) # post"
        and m: "map_of (track obs) dir = Some (s1, f1)"
        and lt: "\<forall>(d, s', f')\<in>set pre. d = dir \<longrightarrow> s' < s1"
        and le: "\<forall>(d, s', f')\<in>set post. d = dir \<longrightarrow> s' \<le> s1"
        by blast
      have "obs @ [ob] = pre @ (dir, s1, f1) # (post @ [ob])"
        using o by simp
      moreover have "map_of (track (obs @ [ob])) dir = Some (s1, f1)"
        using m False by (simp add: step map_of_update_most_visible)
      moreover have "\<forall>(d, s', f')\<in>set (post @ [ob]). d = dir \<longrightarrow> s' \<le> s1"
        using le False by (auto simp add: ob)
      ultimately show ?thesis
        using lt True by (intro conjI impI) (simp, blast)
    next
      case notin: False
      with snoc have "map_of (track obs) dir = None" by simp
      then have "map_of (track (obs @ [ob])) dir = None"
        using False by (simp add: step map_of_update_most_visible)
      with notin False show ?thesis
        by (simp add: ob)
    qed
  next
    case same: True
    show ?thesis
    proof (cases "dir \<in> fst ` set obs")
      case False
      with snoc have none: "map_of (track obs) dir = None" by simp
      have "map_of (track (obs @ [ob])) dir = Some (s, f)"
        using none same by (simp add: step map_of_update_most_visible)
      moreover have "\<forall>(d, s', f')\<in>set obs. d = dir \<longrightarrow> s' < s"
        using False by force
      moreover have "obs @ [ob] = obs @ (dir, s, f) # []"
        using same by (simp add: ob)
      ultimately have "\<exists>pre post s f. obs @ [ob] = pre @ (dir, s, f) # post
            \<and> map_of (track (obs @ [ob])) dir = Some (s, f)
            \<and> (\<forall>(d, s', f')\<in>set pre. d = dir \<longrightarrow> s' < s)
            \<and> (\<forall>(d, s', f')\<in>set post. d = dir \<longrightarrow> s' \<le> s)"
        by (intro exI [of _ obs] exI [of _ "[]"] exI [of _ s] exI [of _ f]) simp
      then show ?thesis
        using same by (simp add: ob)
    next
      case True
      with snoc obtain pre post s1 f1 where o: "obs = pre @ (dir, s1, f1) # post"
        and m: "map_of (track obs) dir = Some (s1, f1)"
        and lt: "\<forall>(d, s', f')\<in>set pre. d = dir \<longrightarrow> s' < s1"
        and le: "\<forall>(d, s', f')\<in>set post. d = dir \<longrightarrow> s' \<le> s1"
        by blast
      have "\<exists>pre post s f. obs @ [ob] = pre @ (dir, s, f) # post
            \<and> map_of (track (obs @ [ob])) dir = Some (s, f)
            \<and> (\<forall>(d, s', f')\<in>set pre. d = dir \<longrightarrow> s' < s)
            \<and> (\<forall>(d, s', f')\<in>set post. d = dir \<longrightarrow> s' \<le> s)"
      proof (cases "s1 < s")
        case gt: True
        have "map_of (track (obs @ [ob])) dir = Some (s, f)"
          using m same gt by (simp add: step map_of_update_most_visible)
        moreover have "\<forall>(d, s', f')\<in>set obs. d = dir \<longrightarrow> s' < s"
          using lt le gt unfolding o by fastforce
        moreover have "obs @ [ob] = obs @ (dir, s, f) # []"
          using same by (simp add: ob)
        ultimately show ?thesis
          by (intro exI [of _ obs] exI [of _ "[]"] exI [of _ s] exI [of _ f]) simp
      next
        case keep: False
        have "map_of (track (obs @ [ob])) dir = Some (s1, f1)"
          using m same keep by (simp add: step map_of_update_most_visible)
        moreover have "\<forall>(d, s', f')\<in>set (post @ [ob]). d = dir \<longrightarrow> s' \<le> s1"
          using le keep by (auto simp add: ob)
        moreover have "obs @ [ob] = pre @ (dir, s1, f1) # (post @ [ob])"
          using o by simp
        ultimately show ?thesis
          using lt by (intro exI [of _ pre] exI [of _ "post @ [ob]"] exI [of _ s1] exI [of _ f1]) simp
      qed
      then show ?thesis
        using same by (simp add: ob)
    qed
  qed
qed

lemma visibility_score_Inr:
  "data m \<noteq> [] \<Longrightarrow> \<exists>score. visibility_score m = Inr score"
  by (simp add: visibility_score_count)

lemma scan_dirs_resize:
  "scan_dirs resize seq H W file mv dirs = scan_dirs resize' seq H' W' file mv dirs"
  by (induction dirs arbitrary: mv) (simp_all add: Let_def split: option.splits sum.splits)

lemma scan_dirs_keys:
  assumes "scan_dirs resize seq H W file mv dirs = Inr mv'"
  shows "fst ` set mv' = set dirs \<union> fst ` set mv
    \<and> (distinct (map fst mv) \<longrightarrow> distinct (map fst mv'))
    \<and> (\<forall>d\<in>set dirs. mask_files seq d file \<noteq> None)"
  using assms
proof (induction dirs arbitrary: mv)
  case Nil
  then show ?case by simp
next
  case (Cons dir dirs)
  from Cons.prems obtain mask_im score where m: "mask_files seq dir file = Some mask_im"
    and s: "visibility_score mask_im = Inr score"
    and rest: "scan_dirs resize seq H W file (update_most_visible mv dir score file) dirs = Inr mv'"
    by (auto simp add: Let_def split: option.splits sum.splits)
  from Cons.IH [OF rest] m show ?case
    by (auto simp add: keys_update_most_visible distinct_update_most_visible)
qed

lemma scan_dirs_missing:
  assumes "d \<in> set dirs" and "mask_files seq d file = None"
    and "\<forall>d\<in>set dirs. \<forall>m. mask_files seq d file = Some m \<longrightarrow> data m \<noteq> []"
  shows "scan_dirs resize seq H W file mv dirs = Inl FileNotFoundError"
  using assms
proof (induction dirs arbitrary: mv)
  case Nil
  then show ?case by simp
next
  case (Cons dir dirs)
  show ?case
  proof (cases "mask_files seq dir file")
    case None
    then show ?thesis by simp
  next
    case (Some mask_im)
    with Cons.prems have "data mask_im \<noteq> []" and "d \<noteq> dir"
      by auto
    then obtain score where "visibility_score mask_im = Inr score" and "d \<in> set dirs"
      using visibility_score_Inr Cons.prems(1) by auto
    with Cons Some show ?thesis
      by (simp add: Let_def)
  qed
qed

lemma scan_dirs_result:
  assumes "\<forall>d\<in>set dirs. \<forall>m. mask_files seq d file = Some m \<longrightarrow> data m \<noteq> []"
  shows "scan_dirs resize seq H W file mv dirs = Inl FileNotFoundError
    \<or> (\<exists>mv'. scan_dirs resize seq H W file mv dirs = Inr mv')"
  using assms
proof (induction dirs arbitrary: mv)
  case Nil
  then show ?case by simp
next
  case (Cons dir dirs)
  show ?case
  proof (cases "mask_files seq dir file")
    case None
    then show ?thesis by simp
  next
    case (Some mask_im)
    with Cons.prems have "data mask_im \<noteq> []"
      by auto
    then obtain score where "visibility_score mask_im = Inr score"
      using visibility_score_Inr by auto
    with Cons Some show ?thesis
      by (simp add: Let_def)
  qed
qed

text \<open>One step of the loop over the frames: a small frame stops at the padding.\<close>

lemma scan_frames_small:
  assumes "H < 6 \<or> W < 6"
  shows "scan_frames resize seq dirs saved mv ((H, W, f) # image_list) = Inl RuntimeError"
proof -
  obtain g where g: "grid_align H W = Inr g"
    using reflection_pad_grid [of H W] by blast
  have "reflection_pad (crop g) H W = Inl RuntimeError"
    using assms g by (rule frame_not_padded)
  with g show ?thesis by simp
qed

lemma scan_frames_padded:
  assumes "grid_align H W = Inr g" and "6 \<le> H" and "6 \<le> W"
  shows "scan_frames resize seq dirs saved mv ((H, W, f) # image_list) =
           (case scan_dirs resize seq H W f mv dirs of
              Inl e \<Rightarrow> Inl e
            | Inr mv1 \<Rightarrow> scan_frames resize seq dirs (saved @ [(f, g)]) mv1 image_list)"
proof -
  have "reflection_pad (crop g) H W = Inr (grid_height g, grid_width g)"
    using reflection_pad_grid [of H W] assms by (auto simp only: sum.inject if_True simp_thms)
  with assms(1) show ?thesis by simp
qed

lemma scan_frames_Inr:
  assumes "scan_frames resize seq dirs saved mv ((H, W, f) # image_list) = Inr (saved', mv')"
    and "grid_align H W = Inr g"
  shows "6 \<le> H \<and> 6 \<le> W
    \<and> (\<exists>mv1. scan_dirs resize seq H W f mv dirs = Inr mv1
          \<and> scan_frames resize seq dirs (saved @ [(f, g)]) mv1 image_list = Inr (saved', mv'))"
proof -
  have big: "6 \<le> H \<and> 6 \<le> W"
  proof (rule ccontr)
    assume "\<not> (6 \<le> H \<and> 6 \<le> W)"
    then have "H < 6 \<or> W < 6" by auto
    from scan_frames_small [OF this] assms(1) show False by simp
  qed
  then have "(case scan_dirs resize seq H W f mv dirs of
              Inl e \<Rightarrow> Inl e
            | Inr mv1 \<Rightarrow> scan_frames resize seq dirs (saved @ [(f, g)]) mv1 image_list)
        = Inr (saved', mv')"
    using scan_frames_padded [OF assms(2), of resize seq dirs saved mv f image_list] assms(1)
    by simp
  then have "\<exists>mv1. scan_dirs resize seq H W f mv dirs = Inr mv1
          \<and> scan_frames resize seq dirs (saved @ [(f, g)]) mv1 image_list = Inr (saved', mv')"
    by (cases "scan_dirs resize seq H W f mv dirs") simp_all
  with big show ?thesis by simp
qed

lemma scan_frames_files:
  assumes "map (\<lambda>(H, W, file). file) image_list' = map (\<lambda>(H, W, file). file) image_list"
    and "\<forall>(H, W, file)\<in>set image_list. 6 \<le> H \<and> 6 \<le> W"
    and "\<forall>(H, W, file)\<in>set image_list'. 6 \<le> H \<and> 6 \<le> W"
  shows "map_sum id snd (scan_frames resize' seq dirs saved' mv image_list')
       = map_sum id snd (scan_frames resize seq dirs saved mv image_list)"
  using assms
proof (induction image_list arbitrary: image_list' saved saved' mv)
  case Nil
  then show ?case by simp
next
  case (Cons fr image_list)
  obtain H W f where fr: "fr = (H, W, f)"
    by (cases fr)
  from Cons.prems(1) obtain H' W' rest where l: "image_list' = (H', W', f) # rest"
    and r: "map (\<lambda>(H, W, file). file) rest = map (\<lambda>(H, W, file). file) image_list"
    by (cases image_list') (auto simp add: fr)
  from Cons.prems(2,3) have big: "6 \<le> H" "6 \<le> W" "6 \<le> H'" "6 \<le> W'"
    and rb: "\<forall>(H, W, file)\<in>set image_list. 6 \<le> H \<and> 6 \<le> W"
    and rb': "\<forall>(H, W, file)\<in>set rest. 6 \<le> H \<and> 6 \<le> W"
    by (simp_all add: fr l)
  have sd: "scan_dirs resize' seq H' W' f mv dirs = scan_dirs resize seq H W f mv dirs"
    by (rule scan_dirs_resize)
  obtain g g' where g: "grid_align H W = Inr g" and g': "grid_align H' W' = Inr g'"
    using reflection_pad_grid [of H W] reflection_pad_grid [of H' W'] by blast
  have st: "scan_frames resize seq dirs saved mv ((H, W, f) # image_list) =
           (case scan_dirs resize seq H W f mv dirs of
              Inl e \<Rightarrow> Inl e
            | Inr mv1 \<Rightarrow> scan_frames resize seq dirs (saved @ [(f, g)]) mv1 image_list)"
    using g big(1,2) by (rule scan_frames_padded)
  have st': "scan_frames resize' seq dirs saved' mv ((H', W', f) # rest) =
           (case scan_dirs resize seq H W f mv dirs of
              Inl e \<Rightarrow> Inl e
            | Inr mv1 \<Rightarrow> scan_frames resize' seq dirs (saved' @ [(f, g')]) mv1 rest)"
    unfolding sd [symmetric] using g' big(3,4) by (rule scan_frames_padded)
  show ?case
  proof (cases "scan_dirs resize seq H W f mv dirs")
    case (Inl e)
    then show ?thesis
      unfolding l fr st st' by simp
  next
    case (Inr mv1)
    have "map_sum id snd (scan_frames resize' seq dirs (saved' @ [(f, g')]) mv1 rest)
        = map_sum id snd (scan_frames resize seq dirs (saved @ [(f, g)]) mv1 image_list)"
      by (rule Cons.IH [OF r rb rb'])
    with Inr show ?thesis
      unfolding l fr st st' by (simp add: id_def)
  qed
qed

lemma scan_frames_keys:
  assumes "scan_frames resize seq dirs saved mv image_list = Inr (saved', mv')"
  shows "fst ` set mv' = (if image_list = [] then {} else set dirs) \<union> fst ` set mv
    \<and> (distinct (map fst mv) \<longrightarrow> distinct (map fst mv'))
    \<and> (\<forall>(H, W, file)\<in>set image_list. \<forall>d\<in>set dirs. mask_files seq d file \<noteq> None)
    \<and> (\<forall>(H, W, file)\<in>set image_list. 6 \<le> H \<and> 6 \<le> W)"
  using assms
proof (induction image_list arbitrary: saved mv)
  case Nil
  then show ?case by simp
next
  case (Cons fr image_list)
  obtain H W f where fr: "fr = (H, W, f)"
    by (cases fr)
  obtain g where g: "grid_align H W = Inr g"
    using reflection_pad_grid [of H W] by blast
  from scan_frames_Inr [OF Cons.prems [unfolded fr] g]
  obtain mv1 where big: "6 \<le> H" "6 \<le> W"
    and sd: "scan_dirs resize seq H W f mv dirs = Inr mv1"
    and rest: "scan_frames resize seq dirs (saved @ [(f, g)]) mv1 image_list = Inr (saved', mv')"
    by blast
  from scan_dirs_keys [OF sd] Cons.IH [OF rest] big show ?case
    by (auto simp add: fr split: if_splits)
qed

lemma scan_frames_missing:
  assumes "(H, W, file) \<in> set image_list" and "d \<in> set dirs"
    and "mask_files seq d file = None"
    and "\<forall>d f m. mask_files seq d f = Some m \<longrightarrow> data m \<noteq> []"
    and "\<forall>(H, W, file)\<in>set image_list. 6 \<le> H \<and> 6 \<le> W"
  shows "scan_frames resize seq dirs saved mv image_list = Inl FileNotFoundError"
  using assms(1,5)
proof (induction image_list arbitrary: saved mv)
  case Nil
  then show ?case by simp
next
  case (Cons fr image_list)
  obtain H1 W1 file1 where fr: "fr = (H1, W1, file1)"
    by (cases fr)
  have ne: "\<forall>d\<in>set dirs. \<forall>m. mask_files seq d file1 = Some m \<longrightarrow> data m \<noteq> []"
    using assms(4) by blast
  from Cons.prems(2) have big: "6 \<le> H1" "6 \<le> W1"
    and rb: "\<forall>(H, W, file)\<in>set image_list. 6 \<le> H \<and> 6 \<le> W"
    by (simp_all add: fr)
  obtain g where g: "grid_align H1 W1 = Inr g"
    using reflection_pad_grid [of H1 W1] by blast
  have st: "scan_frames resize seq dirs saved mv ((H1, W1, file1) # image_list) =
           (case scan_dirs resize seq H1 W1 file1 mv dirs of
              Inl e \<Rightarrow> Inl e
            | Inr mv1 \<Rightarrow> scan_frames resize seq dirs (saved @ [(file1, g)]) mv1 image_list)"
    using g big by (rule scan_frames_padded)
  show ?case
  proof (cases "file1 = file")
    case True
    have "scan_dirs resize seq H1 W1 file1 mv dirs = Inl FileNotFoundError"
      using assms(2,3) ne unfolding True by (intro scan_dirs_missing) auto
    then show ?thesis
      unfolding fr st by simp
  next
    case False
    with Cons.prems(1) have "(H, W, file) \<in> set image_list"
      by (simp add: fr)
    from Cons.IH [OF this rb] scan_dirs_result [OF ne, of resize H1 W1 mv] show ?thesis
      unfolding fr st by auto
  qed
qed

lemma scan_dirs_observations:
  assumes "scan_dirs resize seq H W file mv dirs = Inr mv'"
  shows "mv' = fold (\<lambda>(d, s, f) mv. update_most_visible mv d s f)
                 (map (\<lambda>dir. (dir, score_of seq dir file, file)) dirs) mv"
  using assms
proof (induction dirs arbitrary: mv)
  case Nil
  then show ?case by simp
next
  case (Cons dir dirs)
  from Cons.prems obtain mask_im score where m: "mask_files seq dir file = Some mask_im"
    and s: "visibility_score mask_im = Inr score"
    and rest: "scan_dirs resize seq H W file (update_most_visible mv dir score file) dirs = Inr mv'"
    by (auto simp add: Let_def split: option.splits sum.splits)
  have "score_of seq dir file = score"
    using m s by (simp add: score_of_def)
  with Cons.IH [OF rest] show ?case
    by simp
qed

lemma scan_frames_observations:
  assumes "scan_frames resize seq dirs saved mv image_list = Inr (saved', mv')"
  shows "mv' = fold (\<lambda>(d, s, f) mv. update_most_visible mv d s f)
                 (observations seq dirs image_list) mv"
  using assms
proof (induction image_list arbitrary: saved mv)
  case Nil
  then show ?case by (simp add: observations_def)
next
  case (Cons fr image_list)
  obtain H W f where fr: "fr = (H, W, f)"
    by (cases fr)
  obtain g where g: "grid_align H W = Inr g"
    using reflection_pad_grid [of H W] by blast
  from scan_frames_Inr [OF Cons.prems [unfolded fr] g]
  obtain mv1 where sd: "scan_dirs resize seq H W f mv dirs = Inr mv1"
    and rest: "scan_frames resize seq dirs (saved @ [(f, g)]) mv1 image_list = Inr (saved', mv')"
    by blast
  from scan_dirs_observations [OF sd] Cons.IH [OF rest] show ?case
    by (simp add: observations_def fr)
qed

subsection \<open>Row indices and the embedding loop\<close>

lemma fold_idx_other:
  fixes xs :: "string list"
  defines "ins \<equiv> \<lambda>(idx, dir_name) m. m(dir_name \<mapsto> (idx::nat))"
  shows "d \<notin> set xs \<Longrightarrow> fold ins (enumerate n xs) m0 d = m0 d"
  by (induction xs arbitrary: n m0) (simp_all add: ins_def)

lemma fold_idx_nth:
  fixes xs :: "string list"
  defines "ins \<equiv> \<lambda>(idx, dir_name) m. m(dir_name \<mapsto> (idx::nat))"
  assumes "distinct xs" and "i < length xs"
  shows "fold ins (enumerate n xs) m0 (xs ! i) = Some (n + i)"
  using assms(2,3)
proof (induction xs arbitrary: n m0 i)
  case Nil
  then show ?case by simp
next
  case (Cons x xs)
  have step: "fold ins (enumerate n (x # xs)) m0 = fold ins (enumerate (Suc n) xs) (m0(x \<mapsto> n))"
    by (simp add: ins_def)
  show ?case
  proof (cases i)
    case 0
    from Cons.prems have "x \<notin> set xs" by simp
    then have "fold ins (enumerate (Suc n) xs) (m0(x \<mapsto> n)) x = (m0(x \<mapsto> n)) x"
      unfolding ins_def by (rule fold_idx_other)
    with 0 show ?thesis
      unfolding step by simp
  next
    case (Suc j)
    with Cons.prems have "distinct xs" and "j < length xs"
      by simp_all
    then have "fold ins (enumerate (Suc n) xs) (m0(x \<mapsto> n)) (xs ! j) = Some (Suc n + j)"
      by (rule Cons.IH)
    moreover have "(x # xs) ! i = xs ! j" and "n + i = Suc n + j"
      using Suc by simp_all
    ultimately show ?thesis
      unfolding step by (simp only:)
  qed
qed

lemma dir_to_idx_nth:
  assumes "distinct dirs" and "r < length dirs"
  shows "dir_to_idx dirs (sort dirs ! r) = Some r"
  using fold_idx_nth [of "sort dirs" r 0 Map.empty] assms by (simp add: dir_to_idx_def)

lemma dir_to_idx_inj:
  assumes "distinct dirs"
  shows "inj_on (dir_to_idx dirs) (set dirs)"
proof (rule inj_onI)
  fix a b
  assume a: "a \<in> set dirs" and b: "b \<in> set dirs" and eq: "dir_to_idx dirs a = dir_to_idx dirs b"
  from a obtain i where i: "i < length dirs" "sort dirs ! i = a"
    by (metis in_set_conv_nth length_sort set_sort)
  from b obtain j where j: "j < length dirs" "sort dirs ! j = b"
    by (metis in_set_conv_nth length_sort set_sort)
  from dir_to_idx_nth [OF assms i(1)] dir_to_idx_nth [OF assms j(1)] eq i j
  show "a = b" by simp
qed

lemma dir_to_idx_discovery:
  assumes "distinct dirs" and "distinct dirs'" and "set dirs' = set dirs"
  shows "dir_to_idx dirs' = dir_to_idx dirs"
proof -
  have "sort dirs' = sort dirs"
    using assms by (intro sorted_distinct_set_unique) simp_all
  then show ?thesis by (simp add: dir_to_idx_def)
qed

lemma embed_objects_rows:
  assumes "embed_objects clip seq idx tab mv = Inr tab'"
    and "distinct (map fst mv)" and "inj_on idx (fst ` set mv)"
  shows "length tab' = length tab
    \<and> (\<forall>(dir, stored)\<in>set mv. \<exists>i image_im mask_im masked.
          idx dir = Some i \<and> i < length tab
          \<and> image_files seq (snd stored) = Some image_im
          \<and> mask_files seq dir (snd stored) = Some mask_im
          \<and> masked_image mask_im image_im = Inr masked
          \<and> tab' ! i = Row (clip masked))
    \<and> (\<forall>i. Some i \<notin> idx ` fst ` set mv \<longrightarrow> tab' ! i = tab ! i)"
  using assms
proof (induction mv arbitrary: tab)
  case Nil
  then show ?case by simp
next
  case (Cons entry mv)
  obtain dir stored where e: "entry = (dir, stored)"
    by (cases entry)
  from Cons.prems(1) obtain image_im mask_im masked i
    where im: "image_files seq (snd stored) = Some image_im"
      and mk: "mask_files seq dir (snd stored) = Some mask_im"
      and cr: "masked_image mask_im image_im = Inr masked"
      and ix: "idx dir = Some i" and lt: "i < length tab"
      and rest: "embed_objects clip seq idx (tab[i := Row (clip masked)]) mv = Inr tab'"
    by (auto simp add: e split: option.splits sum.splits if_splits)
  from Cons.prems(2,3) have d: "distinct (map fst mv)" and inj: "inj_on idx (fst ` set mv)"
    and fresh: "dir \<notin> fst ` set mv"
    by (auto simp add: e inj_on_def)
  note ih = Cons.IH [OF rest d inj]
  have "Some i \<notin> idx ` fst ` set mv"
  proof
    assume "Some i \<in> idx ` fst ` set mv"
    then obtain k where k: "k \<in> fst ` set mv" "Some i = idx k"
      by (rule imageE)
    moreover from Cons.prems(3) have "inj_on idx (insert dir (fst ` set mv))"
      by (simp add: e)
    ultimately have "k = dir"
      using ix by (auto dest: inj_onD)
    with fresh k show False by simp
  qed
  with ih lt have here: "tab' ! i = Row (clip masked)"
    by simp
  have len: "length tab' = length tab"
    using ih by simp
  have others: "\<forall>j. Some j \<notin> idx ` fst ` set (entry # mv) \<longrightarrow> tab' ! j = tab ! j"
  proof (intro allI impI)
    fix j
    assume j: "Some j \<notin> idx ` fst ` set (entry # mv)"
    then have "j \<noteq> i" and "Some j \<notin> idx ` fst ` set mv"
      using ix by (auto simp add: e)
    with ih show "tab' ! j = tab ! j"
      by simp
  qed
  have rows: "\<forall>(dir, stored)\<in>set mv. \<exists>i image_im mask_im masked.
          idx dir = Some i \<and> i < length tab
          \<and> image_files seq (snd stored) = Some image_im
          \<and> mask_files seq dir (snd stored) = Some mask_im
          \<and> masked_image mask_im image_im = Inr masked
          \<and> tab' ! i = Row (clip masked)"
    using ih by simp
  show ?case
    using len others rows here im mk cr ix lt unfolding e by simp
qed

lemma upt_6: "[0..<6] = [0, 1, 2, 3, 4, 5]"
  by code_simp

subsection \<open>The driver loop\<close>

lemma load_images_default:
  "load_images (- 1) None img_list files =
     (if \<exists>(orig_h, orig_w, file)\<in>set files. 1080 < orig_h then Inl NameError
      else Inr (img_list @ files))"
proof (induction files arbitrary: img_list)
  case Nil
  show ?case by simp
next
  case (Cons im files)
  obtain orig_h orig_w f where im: "im = (orig_h, orig_w, f)"
    by (cases im)
  show ?case
  proof (cases "1080 < orig_h")
    case True
    then show ?thesis
      by (simp add: im downscale_def)
  next
    case False
    then have "load_images (- 1) None img_list (im # files)
        = load_images (- 1) None (img_list @ [(orig_h, orig_w, f)]) files"
      by (simp add: im downscale_def py_int_def)
    with False show ?thesis
      by (simp add: Cons.IH im)
  qed
qed

subsection \<open>Claims on the Grid Aligner\<close>

text \<open>
  C1. For every frame height \<open>H \<ge> 1\<close> and width \<open>W \<ge> 1\<close> the assertion of lines 50 to 53
  passes, so the aligner returns; the grid sizes are \<open>ceil(H/14)*14\<close> and
  \<open>ceil(W/14)*14\<close>, the four paddings are the ceiling and the floor of half the
  difference, each pair of paddings sums to the difference and differs by at most one.
  At \<open>H = 100\<close>, \<open>W = 150\<close> the grid is 112 by 154 and the paddings are 6, 6, 2, 2.
\<close>

theorem grid_align_padding:
  assumes "1 \<le> H" and "1 \<le> W"
  shows "\<exists>g. grid_align H W = Inr g
    \<and> grid_height g = \<lceil>rat_of_int H / 14\<rceil> * 14
    \<and> grid_width g = \<lceil>rat_of_int W / 14\<rceil> * 14
    \<and> padding_top (crop g) = \<lceil>rat_of_int (grid_height g - H) / 2\<rceil>
    \<and> padding_bottom (crop g) = \<lfloor>rat_of_int (grid_height g - H) / 2\<rfloor>
    \<and> padding_left (crop g) = \<lceil>rat_of_int (grid_width g - W) / 2\<rceil>
    \<and> padding_right (crop g) = \<lfloor>rat_of_int (grid_width g - W) / 2\<rfloor>
    \<and> padding_top (crop g) + padding_bottom (crop g) = grid_height g - H
    \<and> padding_left (crop g) + padding_right (crop g) = grid_width g - W
    \<and> \<bar>padding_top (crop g) - padding_bottom (crop g)\<bar> \<le> 1
    \<and> \<bar>padding_left (crop g) - padding_right (crop g)\<bar> \<le> 1
    \<and> H + padding_top (crop g) + padding_bottom (crop g) = grid_height g
    \<and> W + padding_left (crop g) + padding_right (crop g) = grid_width g"
proof -
  let ?GH = "- ((- H) div 14) * 14" and ?GW = "- ((- W) div 14) * 14"
  have sumH: "- ((- (?GH - H)) div 2) + (?GH - H) div 2 = ?GH - H"
    by (rule ceil_floor_split)
  have sumW: "- ((- (?GW - W)) div 2) + (?GW - W) div 2 = ?GW - W"
    by (rule ceil_floor_split)
  have gapH: "\<bar>- ((- (?GH - H)) div 2) - (?GH - H) div 2\<bar> \<le> 1"
    by (rule ceil_floor_gap)
  have gapW: "\<bar>- ((- (?GW - W)) div 2) - (?GW - W) div 2\<bar> \<le> 1"
    by (rule ceil_floor_gap)
  have totH: "H + - ((- (?GH - H)) div 2) + (?GH - H) div 2 = ?GH"
    using sumH by linarith
  have totW: "W + - ((- (?GW - W)) div 2) + (?GW - W) div 2 = ?GW"
    using sumW by linarith
  show ?thesis
    unfolding grid_align_Inr
    using sumH sumW gapH gapW totH totW
    by (simp only: sum.inject simp_thms ex_simps dino_crop.simps patch_feature_map.simps
          ceiling_div14 ceiling_div2 floor_div2)
qed

theorem grid_align_padding_witness:
  "(1::int) \<le> 100 \<and> (1::int) \<le> 150
   \<and> (\<exists>g. grid_align 100 150 = Inr g
        \<and> grid_height g = 112 \<and> grid_width g = 154
        \<and> padding_top (crop g) = 6 \<and> padding_bottom (crop g) = 6
        \<and> padding_left (crop g) = 2 \<and> padding_right (crop g) = 2
        \<and> 100 + padding_top (crop g) + padding_bottom (crop g) = grid_height g
        \<and> 150 + padding_left (crop g) + padding_right (crop g) = grid_width g)"
proof -
  have ev: "grid_align 100 150 =
       Inr \<lparr>grid_height = 112, grid_width = 154, grid_rows = 8, grid_cols = 11,
            crop = \<lparr>padding_top = 6, padding_bottom = 6,
                     padding_left = 2, padding_right = 2\<rparr>\<rparr>"
    by (simp add: grid_align_Inr)
  obtain g where g: "grid_align 100 150 = Inr g"
    and "100 + padding_top (crop g) + padding_bottom (crop g) = grid_height g"
    and "150 + padding_left (crop g) + padding_right (crop g) = grid_width g"
    using grid_align_padding [of 100 150] by auto
  then show ?thesis
    using ev by auto
qed

text \<open>
  C8. For every \<open>H, W \<ge> 1\<close> and every pixel \<open>(y, x)\<close> of the unpadded image, the
  recovered cell \<open>((y + padTop) // 14, (x + padLeft) // 14)\<close> is a cell of the saved
  grid, whose shape is \<open>(H_14 // 14, W_14 // 14)\<close>.
\<close>

theorem grid_cell_in_bounds:
  assumes "1 \<le> H" and "1 \<le> W" and "0 \<le> y" and "y < H" and "0 \<le> x" and "x < W"
  shows "\<exists>g. grid_align H W = Inr g
    \<and> grid_rows g = grid_height g div 14 \<and> grid_cols g = grid_width g div 14
    \<and> 0 \<le> fst (grid_cell (crop g) y x) \<and> fst (grid_cell (crop g) y x) < grid_rows g
    \<and> 0 \<le> snd (grid_cell (crop g) y x) \<and> snd (grid_cell (crop g) y x) < grid_cols g"
proof -
  define qh where "qh = - ((- H) div 14)"
  define qw where "qw = - ((- W) div 14)"
  define pt where "pt = - ((- (qh * 14 - H)) div 2)"
  define pl where "pl = - ((- (qw * 14 - W)) div 2)"
  have H: "H \<le> qh * 14" and W: "W \<le> qw * 14"
    unfolding qh_def qw_def by presburger+
  have pt: "0 \<le> pt \<and> pt \<le> qh * 14 - H"
    using H unfolding pt_def by presburger
  have pl: "0 \<le> pl \<and> pl \<le> qw * 14 - W"
    using W unfolding pl_def by presburger
  have "0 \<le> y + pt" "y + pt < qh * 14"
    using pt assms(3,4) by linarith+
  then have row: "0 \<le> (y + pt) div 14 \<and> (y + pt) div 14 < qh"
    by (simp add: pos_imp_zdiv_nonneg_iff)
  have "0 \<le> x + pl" "x + pl < qw * 14"
    using pl assms(5,6) by linarith+
  then have col: "0 \<le> (x + pl) div 14 \<and> (x + pl) div 14 < qw"
    by (simp add: pos_imp_zdiv_nonneg_iff)
  have "grid_align H W =
     Inr \<lparr>grid_height = qh * 14, grid_width = qw * 14, grid_rows = qh, grid_cols = qw,
          crop = \<lparr>padding_top = pt, padding_bottom = (qh * 14 - H) div 2,
                   padding_left = pl, padding_right = (qw * 14 - W) div 2\<rparr>\<rparr>"
    unfolding qh_def qw_def pt_def pl_def by (rule grid_align_Inr)
  then show ?thesis
    using row col by (simp add: grid_cell_def)
qed

theorem grid_cell_in_bounds_witness:
  "(1::int) \<le> 100 \<and> (1::int) \<le> 150 \<and> (0::int) \<le> 99 \<and> (99::int) < 100
   \<and> (0::int) \<le> 149 \<and> (149::int) < 150
   \<and> (\<exists>g. grid_align 100 150 = Inr g \<and> grid_rows g = 8 \<and> grid_cols g = 11
        \<and> grid_cell (crop g) 99 149 = (7, 10))"
proof -
  obtain g where g: "grid_align 100 150 = Inr g"
    and "fst (grid_cell (crop g) 99 149) < grid_rows g"
    and "snd (grid_cell (crop g) 99 149) < grid_cols g"
    using grid_cell_in_bounds [of 100 150 99 149] by auto
  from g have "grid_rows g = 8 \<and> grid_cols g = 11 \<and> grid_cell (crop g) 99 149 = (7, 10)"
    by (auto simp add: grid_align_Inr grid_cell_def)
  with g show ?thesis by simp
qed

subsection \<open>Claims on binarised masks and masked crops\<close>

text \<open>
  C3, as the code has it. The binarisation divides by the maximum of the mask, so on a
  non-empty mask an entry becomes 1 exactly when it equals that maximum and the maximum
  is positive, and 0 otherwise (also when it is positive but below the maximum); the
  score is the number of entries equal to the positive maximum. When all positive
  entries of the mask share one value, every positive entry becomes 1, every zero entry
  0, and the score is the number of positive entries.
\<close>

theorem binarize_keeps_maximum:
  assumes "data mask_im \<noteq> []"
  shows "\<exists>mask_data. binarize mask_im = Inr mask_data
     \<and> shape mask_data = shape mask_im
     \<and> length (data mask_data) = length (data mask_im)
     \<and> (\<forall>n<length (data mask_im). data mask_data ! n =
           (if data mask_im ! n = Max (set (data mask_im)) \<and> 0 < data mask_im ! n then 1 else 0))
     \<and> visibility_score mask_im =
           Inr (length (filter (\<lambda>v. v = Max (set (data mask_im)) \<and> 0 < v) (data mask_im)))
     \<and> ((\<forall>v\<in>set (data mask_im). \<forall>w\<in>set (data mask_im). 0 < v \<and> 0 < w \<longrightarrow> v = w) \<longrightarrow>
           (\<forall>n<length (data mask_im). data mask_data ! n = (if 0 < data mask_im ! n then 1 else 0))
           \<and> visibility_score mask_im = Inr (length (filter (\<lambda>v. 0 < v) (data mask_im))))"
proof -
  let ?M = "Max (set (data mask_im))"
  let ?b = "mask_im\<lparr>data := map (\<lambda>v. if v = ?M \<and> v \<noteq> 0 then 1 else 0) (data mask_im)\<rparr>"
  have b: "binarize mask_im = Inr ?b"
    by (rule binarize_data [OF assms])
  have sc: "visibility_score mask_im = Inr (length (filter (\<lambda>v. v = ?M \<and> v \<noteq> 0) (data mask_im)))"
    by (rule visibility_score_count [OF assms])
  have M: "?M \<in> set (data mask_im)"
    using assms by (intro Max_in) simp_all
  have two: "(v = ?M \<and> v \<noteq> 0) = (v \<noteq> 0)"
    if same: "\<forall>v\<in>set (data mask_im). \<forall>w\<in>set (data mask_im). 0 < v \<and> 0 < w \<longrightarrow> v = w"
      and v: "v \<in> set (data mask_im)" for v
  proof (cases "v = 0")
    case True
    then show ?thesis by simp
  next
    case False
    then have "0 < v" by (simp add: word_neq_0_conv)
    moreover have "v \<le> ?M" using v by simp
    ultimately have "0 < ?M" by simp
    with same v M \<open>0 < v\<close> have "v = ?M" by blast
    with False show ?thesis by simp
  qed
  have "(\<forall>n<length (data mask_im). data ?b ! n = (if 0 < data mask_im ! n then 1 else 0))
      \<and> visibility_score mask_im = Inr (length (filter (\<lambda>v. 0 < v) (data mask_im)))"
    if same: "\<forall>v\<in>set (data mask_im). \<forall>w\<in>set (data mask_im). 0 < v \<and> 0 < w \<longrightarrow> v = w"
  proof -
    have "filter (\<lambda>v. v = ?M \<and> v \<noteq> 0) (data mask_im) = filter (\<lambda>v. 0 < v) (data mask_im)"
      using two [OF same] by (intro filter_cong) (simp_all add: word_neq_0_conv)
    moreover have "data ?b ! n = (if 0 < data mask_im ! n then 1 else 0)"
      if "n < length (data mask_im)" for n
      using two [OF same, of "data mask_im ! n"] that by (simp add: word_neq_0_conv)
    ultimately show ?thesis
      using sc by simp
  qed
  then show ?thesis
    using b sc by (simp add: word_neq_0_conv)
qed

theorem binarize_keeps_maximum_witness:
  "data binary_mask \<noteq> []
   \<and> binarize binary_mask = Inr \<lparr>shape = (1, 2, 3), data = [0, 0, 0, 1, 1, 1]\<rparr>
   \<and> visibility_score binary_mask = Inr 3"
proof -
  have ne: "data binary_mask \<noteq> []"
    and same: "\<forall>v\<in>set (data binary_mask). \<forall>w\<in>set (data binary_mask). 0 < v \<and> 0 < w \<longrightarrow> v = w"
    by (simp_all add: binary_mask_def)
  have ev: "binarize binary_mask = Inr \<lparr>shape = (1, 2, 3), data = [0, 0, 0, 1, 1, 1]\<rparr>"
    by (simp add: binary_mask_def binarize_def divisor_def amax_def floordiv_def)
  have "visibility_score binary_mask = Inr (length (filter (\<lambda>v. 0 < v) (data binary_mask)))"
    using binarize_keeps_maximum [OF ne] same by blast
  then have "visibility_score binary_mask = Inr 3"
    by (simp add: binary_mask_def)
  with ev ne show ?thesis
    by simp
qed

text \<open>
  C3 as stated fails: in a mask holding the positive values 100 and 255 the entries
  100 become 0, and the score is 3 although six entries are positive.
\<close>

theorem binarize_gray_counterexample:
  "binarize \<lparr>shape = (1, 2, 3), data = [100, 100, 100, 255, 255, 255]\<rparr>
     = Inr \<lparr>shape = (1, 2, 3), data = [0, 0, 0, 1, 1, 1]\<rparr>
   \<and> visibility_score \<lparr>shape = (1, 2, 3), data = [100, 100, 100, 255, 255, 255]\<rparr> = Inr 3"
  by (simp add: visibility_score_def binarize_def divisor_def amax_def floordiv_def asum_def)

text \<open>
  C5. On a non-empty all-zero mask the divisor \<open>max(1, 0)\<close> is 1, the score is 0, and
  a score of 0 leaves the record already stored for the object untouched, in the
  update rule and in the step of the scan.
\<close>

theorem zero_mask_keeps_record:
  assumes "data mask_im \<noteq> []" and "\<forall>v\<in>set (data mask_im). v = 0"
    and "map_of most_visible dir = Some stored"
  shows "divisor mask_im = Inr 1 \<and> binarize mask_im = Inr mask_im
     \<and> visibility_score mask_im = Inr 0
     \<and> update_most_visible most_visible dir 0 file = most_visible
     \<and> (mask_files seq dir file = Some mask_im \<longrightarrow>
          scan_dirs resize seq H W file most_visible [dir] = Inr most_visible)"
proof -
  have "Max (set (data mask_im)) \<in> set (data mask_im)"
    using assms(1) by (intro Max_in) simp_all
  then have M: "Max (set (data mask_im)) = 0"
    using assms(2) by blast
  have d: "divisor mask_im = Inr 1"
    using assms(1) M by (simp add: divisor_def amax_Max)
  have "map (\<lambda>v. v div 1) (data mask_im) = data mask_im"
    by (simp add: map_idI)
  then have b: "binarize mask_im = Inr mask_im"
    using d by (simp add: binarize_def floordiv_def)
  have "sum_list (map unat (data mask_im)) = 0"
    using assms(2) by (auto simp add: sum_list_eq_0_iff)
  then have s: "visibility_score mask_im = Inr 0"
    using b by (simp add: visibility_score_def asum_def)
  have u: "update_most_visible most_visible dir 0 file = most_visible"
    using assms(3) by (simp add: update_most_visible_def)
  show ?thesis
    using d b s u by simp
qed

theorem zero_mask_keeps_record_witness:
  "data zero_mask \<noteq> []
   \<and> map_of [(''chair'', (3, ''0001.png''))] ''chair'' = Some (3, ''0001.png'')
   \<and> visibility_score zero_mask = Inr 0
   \<and> update_most_visible [(''chair'', (3, ''0001.png''))] ''chair'' 0 ''0002.png''
       = [(''chair'', (3, ''0001.png''))]"
proof -
  have ne: "data zero_mask \<noteq> []" and z: "\<forall>v\<in>set (data zero_mask). v = 0"
    by (simp_all add: zero_mask_def)
  have st: "map_of [(''chair'', (3::nat, ''0001.png''))] ''chair'' = Some (3, ''0001.png'')"
    by simp
  show ?thesis
    using zero_mask_keeps_record [OF ne z st, of "''0002.png''"] ne st by simp
qed

text \<open>
  C7. For a mask and an image of the same shape \<open>(H, W, 3)\<close>, every entry of the
  binarised mask is 0 or 1; where it is 0 the masked image holds 0, and where it is 1
  the masked image holds the entry of the image.
\<close>

theorem masked_crop_pixels:
  assumes "rgb_array mask_im" and "rgb_array image_im" and "shape image_im = shape mask_im"
    and "shape mask_im = (H, W, C)"
  shows "\<exists>mask_data masked. binarize mask_im = Inr mask_data
     \<and> masked_image mask_im image_im = Inr masked
     \<and> shape masked = shape image_im
     \<and> length (data masked) = length (data image_im)
     \<and> (\<forall>y<H. \<forall>x<W. \<forall>c<C.
           (entry mask_data y x c = 0 \<or> entry mask_data y x c = 1)
         \<and> (entry mask_data y x c = 0 \<longrightarrow> entry masked y x c = 0)
         \<and> (entry mask_data y x c = 1 \<longrightarrow> entry masked y x c = entry image_im y x c))"
proof -
  let ?M = "Max (set (data mask_im))"
  let ?b = "mask_im\<lparr>data := map (\<lambda>v. if v = ?M \<and> v \<noteq> 0 then 1 else 0) (data mask_im)\<rparr>"
  have len: "length (data mask_im) = H * W * C" and leni: "length (data image_im) = H * W * C"
    and pos: "1 \<le> H" "1 \<le> W" "C = 3"
    using assms by (simp_all add: rgb_array_def)
  then have ne: "data mask_im \<noteq> []"
    by auto
  have b: "binarize mask_im = Inr ?b"
    by (rule binarize_data [OF ne])
  have shb: "shape ?b = (H, W, C)" and shi: "shape image_im = (H, W, C)"
    using assms(3,4) by simp_all
  let ?p = "\<lparr>shape = (H, W, C),
             data = map (\<lambda>n. item ?b (n div (W * C)) (n div C mod W) (n mod C)
                            * item image_im (n div (W * C)) (n div C mod W) (n mod C))
                        [0..<H * W * C]\<rparr>"
  have m: "multiply ?b image_im = Inr ?p"
    by (rule multiply_same_shape [OF shb shi])
  then have mi: "masked_image mask_im image_im = Inr ?p"
    using b by (simp add: masked_image_def)
  have bit: "entry ?b y x c = 0 \<or> entry ?b y x c = 1" if "y < H" "x < W" "c < C" for y x c
    using flat_index(1) [OF that] len assms(4) by (simp add: entry_def)
  have prod: "entry ?p y x c = entry ?b y x c * entry image_im y x c"
    if "y < H" "x < W" "c < C" for y x c
    by (rule entry_multiply [OF shb shi m that])
  show ?thesis
    using b mi shi leni bit prod by (intro exI [of _ ?b] exI [of _ ?p]) auto
qed

theorem masked_crop_pixels_witness:
  "rgb_array binary_mask \<and> rgb_array small_image \<and> shape small_image = shape binary_mask
   \<and> shape binary_mask = (1, 2, 3)
   \<and> masked_image binary_mask small_image = Inr \<lparr>shape = (1, 2, 3), data = [0, 0, 0, 40, 50, 60]\<rparr>"
proof -
  have h: "rgb_array binary_mask" "rgb_array small_image" "shape small_image = shape binary_mask"
    "shape binary_mask = (1, 2, 3)"
    by (simp_all add: rgb_array_def binary_mask_def small_image_def)
  have ev: "masked_image binary_mask small_image
      = Inr \<lparr>shape = (1, 2, 3), data = [0, 0, 0, 40, 50, 60]\<rparr>"
    by (simp add: masked_image_def binarize_def divisor_def amax_def floordiv_def multiply_def
        broadcast_dim_def item_def entry_def binary_mask_def small_image_def upt_rec [of _ "numeral n" for n] upt_rec [of 0])
  obtain mask_data masked where "binarize binary_mask = Inr mask_data"
    and "masked_image binary_mask small_image = Inr masked"
    and "\<forall>y<1. \<forall>x<2. \<forall>c<3.
           (entry mask_data y x c = 0 \<or> entry mask_data y x c = 1)
         \<and> (entry mask_data y x c = 0 \<longrightarrow> entry masked y x c = 0)
         \<and> (entry mask_data y x c = 1 \<longrightarrow> entry masked y x c = entry small_image y x c)"
    using masked_crop_pixels [OF h] by blast
  with ev h show ?thesis
    by simp
qed

subsection \<open>Claims on the Visibility Tracker\<close>

text \<open>
  C2. For every object id \<open>dir\<close> and every sequence of observations presented in scan
  order (observations of other objects may lie in between), the record kept for \<open>dir\<close>
  is the first observation of \<open>dir\<close> whose score is the maximum: every earlier score
  of \<open>dir\<close> is strictly smaller and every later one is at most equal. A stored record
  is replaced only by a strictly greater score, and a completed scan is this rule
  applied to its observations in scan order. Scores 120, 200, 150 select the second
  frame; scores 200, 200, 150 select the first.
\<close>

theorem most_visible_first_maximum:
  fixes obs :: "(string \<times> nat \<times> string) list"
  assumes "dir \<in> fst ` set obs"
  shows "(\<exists>pre post s f. obs = pre @ (dir, s, f) # post
            \<and> map_of (fold (\<lambda>(d, s, f) mv. update_most_visible mv d s f) obs []) dir = Some (s, f)
            \<and> (\<forall>(d, s', f')\<in>set pre. d = dir \<longrightarrow> s' < s)
            \<and> (\<forall>(d, s', f')\<in>set post. d = dir \<longrightarrow> s' \<le> s))
     \<and> (\<forall>mv stored s f. map_of mv dir = Some stored \<longrightarrow>
           update_most_visible mv dir s f
             = (if fst stored < s then AList.update dir (s, f) mv else mv))
     \<and> (\<forall>resize seq dirs image_list saved most_visible.
           scan_frames resize seq dirs [] [] image_list = Inr (saved, most_visible) \<longrightarrow>
           most_visible = fold (\<lambda>(d, s, f) mv. update_most_visible mv d s f)
                            (observations seq dirs image_list) [])"
proof -
  have "most_visible = fold (\<lambda>(d, s, f) mv. update_most_visible mv d s f)
                            (observations seq dirs image_list) []"
    if "scan_frames resize seq dirs [] [] image_list = Inr (saved, most_visible)"
    for resize seq dirs image_list saved most_visible
    using that by (rule scan_frames_observations)
  then show ?thesis
    using tracked_first_maximum [of dir obs] assms
    by (simp add: update_most_visible_def)
qed

theorem most_visible_first_maximum_witness:
  "''chair'' \<in> fst ` set [(''chair'', 120::nat, ''f1''), (''chair'', 200, ''f2''), (''chair'', 150, ''f3'')]
   \<and> map_of (fold (\<lambda>(d, s, f) mv. update_most_visible mv d s f)
        [(''chair'', 120, ''f1''), (''chair'', 200, ''f2''), (''chair'', 150, ''f3'')] []) ''chair''
       = Some (200, ''f2'')
   \<and> map_of (fold (\<lambda>(d, s, f) mv. update_most_visible mv d s f)
        [(''chair'', 200, ''f1''), (''chair'', 200, ''f2''), (''chair'', 150, ''f3'')] []) ''chair''
       = Some (200, ''f1'')"
proof -
  have h: "''chair'' \<in> fst ` set [(''chair'', 120::nat, ''f1''), (''chair'', 200, ''f2''), (''chair'', 150, ''f3'')]"
    by simp
  have "\<forall>mv stored s f. map_of mv ''chair'' = Some stored \<longrightarrow>
           update_most_visible mv ''chair'' s f
             = (if fst stored < s then AList.update ''chair'' (s, f) mv else mv)"
    using most_visible_first_maximum [OF h] by blast
  then have u: "update_most_visible [(''chair'', (s0, f0))] ''chair'' s f
      = (if s0 < s then [(''chair'', (s, f))] else [(''chair'', (s0, f0))])" for s0 f0 s f
    by simp
  have i: "update_most_visible [] ''chair'' s f = [(''chair'', (s, f))]" for s f
    by (simp add: update_most_visible_def)
  show ?thesis
    using h by (simp add: u i)
qed

text \<open>
  C10. The value of \<^verbatim>\<open>mask.resize((W, H))\<close> is dropped, so the inner loop over the
  objects gives the same scores and the same \<^verbatim>\<open>most_visible\<close> for every tensor shape
  and every resize. Hence two image lists with the same file names give the same
  error or the same \<^verbatim>\<open>most_visible\<close>, whatever the shapes of their tensors, as long
  as every frame has sides of at least 6, so that its reflection padding succeeds and
  its masks are opened at all.
\<close>

theorem score_ignores_resize:
  "(\<forall>H W H' W' file most_visible.
          scan_dirs resize' seq H' W' file most_visible dirs
        = scan_dirs resize seq H W file most_visible dirs)
   \<and> (map (\<lambda>(H, W, file). file) image_list' = map (\<lambda>(H, W, file). file) image_list
        \<and> (\<forall>(H, W, file)\<in>set image_list. 6 \<le> H \<and> 6 \<le> W)
        \<and> (\<forall>(H, W, file)\<in>set image_list'. 6 \<le> H \<and> 6 \<le> W) \<longrightarrow>
          map_sum id snd (scan_frames resize' seq dirs [] [] image_list')
        = map_sum id snd (scan_frames resize seq dirs [] [] image_list))"
proof -
  have "scan_dirs resize' seq H' W' f most_visible dirs
        = scan_dirs resize seq H W f most_visible dirs" for H W H' W' f most_visible
    by (rule scan_dirs_resize)
  moreover have "map_sum id snd (scan_frames resize' seq dirs [] [] image_list')
        = map_sum id snd (scan_frames resize seq dirs [] [] image_list)"
    if "map (\<lambda>(H, W, file). file) image_list' = map (\<lambda>(H, W, file). file) image_list"
      and "\<forall>(H, W, file)\<in>set image_list. 6 \<le> H \<and> 6 \<le> W"
      and "\<forall>(H, W, file)\<in>set image_list'. 6 \<le> H \<and> 6 \<le> W"
    using that by (rule scan_frames_files)
  ultimately show ?thesis by blast
qed

theorem score_ignores_resize_witness:
  "map (\<lambda>(H, W, file). file) [(540::int, 960::int, ''0001.png''), (540, 960, ''0002.png'')]
     = map (\<lambda>(H, W, file). file) [(1080::int, 1920::int, ''0001.png''), (1080, 1920, ''0002.png'')]
   \<and> map_sum id snd (scan_frames keep_size full_seq [''table'', ''chair''] [] []
         [(540, 960, ''0001.png''), (540, 960, ''0002.png'')])
     = Inr [(''table'', 3, ''0001.png''), (''chair'', 3, ''0002.png'')]
   \<and> map_sum id snd (scan_frames keep_size full_seq [''table'', ''chair''] [] []
         [(1080, 1920, ''0001.png''), (1080, 1920, ''0002.png'')])
     = Inr [(''table'', 3, ''0001.png''), (''chair'', 3, ''0002.png'')]"
proof -
  have h: "map (\<lambda>(H, W, file). file) [(540::int, 960::int, ''0001.png''), (540, 960, ''0002.png'')]
     = map (\<lambda>(H, W, file). file) [(1080::int, 1920::int, ''0001.png''), (1080, 1920, ''0002.png'')]"
    by simp
  have big: "\<forall>(H, W, file)\<in>set [(1080::int, 1920::int, ''0001.png''), (1080, 1920, ''0002.png'')].
      6 \<le> H \<and> 6 \<le> W"
    and big': "\<forall>(H, W, file)\<in>set [(540::int, 960::int, ''0001.png''), (540, 960, ''0002.png'')].
      6 \<le> H \<and> 6 \<le> W"
    by simp_all
  have ev: "map_sum id snd (scan_frames keep_size full_seq [''table'', ''chair''] [] []
         [(1080, 1920, ''0001.png''), (1080, 1920, ''0002.png'')])
     = Inr [(''table'', 3, ''0001.png''), (''chair'', 3, ''0002.png'')]"
    by (simp add: full_seq_def zero_mask_def binary_mask_def keep_size_def
      grid_align_Inr reflection_pad_def visibility_score_def binarize_def divisor_def
      amax_def floordiv_def asum_def update_most_visible_def)
  have "map_sum id snd (scan_frames keep_size full_seq [''table'', ''chair''] [] []
         [(540, 960, ''0001.png''), (540, 960, ''0002.png'')])
      = map_sum id snd (scan_frames keep_size full_seq [''table'', ''chair''] [] []
         [(1080, 1920, ''0001.png''), (1080, 1920, ''0002.png'')])"
    using score_ignores_resize [of keep_size full_seq "[''table'', ''chair'']" keep_size
        "[(540, 960, ''0001.png''), (540, 960, ''0002.png'')]"
        "[(1080, 1920, ''0001.png''), (1080, 1920, ''0002.png'')]"] h big big'
    by blast
  with ev h show ?thesis
    by simp
qed

text \<open>
  C6, as the code has it. When the mask file of a discovered object is absent for a
  frame of the image list, the scan does not complete and nothing is embedded: no pair
  is skipped. When every frame has sides of at least 6, so that each is padded and the
  scan reaches its masks, and the mask files that exist are not empty arrays, the
  exception is the \<^verbatim>\<open>FileNotFoundError\<close> of \<^verbatim>\<open>Image.open\<close>.
\<close>

theorem missing_mask_fails:
  assumes "mask_dirs seq = Some dirs" and "(H, W, file) \<in> set image_list"
    and "dir \<in> set dirs" and "mask_files seq dir file = None"
  shows "(\<forall>saved most_visible.
            scan_frames resize seq dirs [] [] image_list \<noteq> Inr (saved, most_visible))
    \<and> (\<forall>saved clip_embeddings.
            extract_features resize clip seq image_list \<noteq> Inr (saved, clip_embeddings))
    \<and> ((\<forall>d f m. mask_files seq d f = Some m \<longrightarrow> data m \<noteq> [])
        \<and> (\<forall>(H, W, file)\<in>set image_list. 6 \<le> H \<and> 6 \<le> W) \<longrightarrow>
          scan_frames resize seq dirs [] [] image_list = Inl FileNotFoundError
        \<and> extract_features resize clip seq image_list = Inl FileNotFoundError)"
proof -
  have fail: "scan_frames resize seq dirs [] [] image_list \<noteq> Inr (saved, mv)" for saved mv
  proof
    assume "scan_frames resize seq dirs [] [] image_list = Inr (saved, mv)"
    from scan_frames_keys [OF this] assms(2,3)
    have "mask_files seq dir file \<noteq> None"
      by blast
    with assms(4) show False by simp
  qed
  then have "extract_features resize clip seq image_list \<noteq> Inr (saved, emb)" for saved emb
    by (auto simp add: extract_features_def assms(1) split: sum.splits)
  moreover have "scan_frames resize seq dirs [] [] image_list = Inl FileNotFoundError
        \<and> extract_features resize clip seq image_list = Inl FileNotFoundError"
    if "\<forall>d f m. mask_files seq d f = Some m \<longrightarrow> data m \<noteq> []"
      and "\<forall>(H, W, file)\<in>set image_list. 6 \<le> H \<and> 6 \<le> W"
    using scan_frames_missing [OF assms(2,3,4) that, of resize "[]" "[]"]
    by (simp add: extract_features_def assms(1))
  ultimately show ?thesis
    using fail by blast
qed

theorem missing_mask_fails_witness:
  "mask_dirs missing_seq = Some [''table'', ''chair'']
   \<and> (14, 14, ''0001.png'') \<in> set [(14::int, 14::int, ''0001.png''), (14, 14, ''0002.png'')]
   \<and> ''chair'' \<in> set [''table'', ''chair'']
   \<and> mask_files missing_seq ''chair'' ''0001.png'' = None
   \<and> scan_frames keep_size missing_seq [''table'', ''chair''] [] []
         [(14, 14, ''0001.png''), (14, 14, ''0002.png'')] = Inl FileNotFoundError"
proof -
  have md: "mask_dirs missing_seq = Some [''table'', ''chair'']"
    and fr: "(14, 14, ''0001.png'') \<in> set [(14::int, 14::int, ''0001.png''), (14, 14, ''0002.png'')]"
    and dr: "''chair'' \<in> set [''table'', ''chair'']"
    and no: "mask_files missing_seq ''chair'' ''0001.png'' = None"
    and ne: "\<forall>d f m. mask_files missing_seq d f = Some m \<longrightarrow> data m \<noteq> []"
    and big: "\<forall>(H, W, file)\<in>set [(14::int, 14::int, ''0001.png''), (14, 14, ''0002.png'')].
      6 \<le> H \<and> 6 \<le> W"
    by (simp_all add: missing_seq_def binary_mask_def)
  show ?thesis
    using missing_mask_fails [OF md fr dr no, of keep_size raw_pixels] md fr dr no ne big by blast
qed

text \<open>
  C6 as stated fails: with two frames of 14 by 14, a mask for \<open>table\<close> and none for
  \<open>chair\<close>, the run ends in \<^verbatim>\<open>FileNotFoundError\<close>.
\<close>

theorem missing_mask_counterexample:
  "mask_dirs missing_seq = Some [''table'', ''chair'']
   \<and> mask_files missing_seq ''chair'' ''0001.png'' = None
   \<and> extract_features keep_size raw_pixels missing_seq
         [(14, 14, ''0001.png''), (14, 14, ''0002.png'')]
       = Inl FileNotFoundError"
  by (simp add: missing_seq_def binary_mask_def keep_size_def
      extract_features_def grid_align_Inr reflection_pad_def visibility_score_def binarize_def
      divisor_def amax_def floordiv_def asum_def update_most_visible_def)

subsection \<open>Claims on the embedding table\<close>

text \<open>
  C4, as the code has it. After a completed run over at least one frame, with the
  discovered object ids distinct, the table has one row for every discovered object
  id, whatever its scores, and row \<open>r\<close> is the embedding of the masked crop of the
  \<open>r\<close>-th object id in sorted order at the frame recorded for it; the row indices
  depend on the set of object ids only, not on the order of their discovery.
\<close>

theorem embedding_rows_sorted:
  assumes "mask_dirs seq = Some dirs" and "distinct dirs" and "image_list \<noteq> []"
    and "extract_features resize clip seq image_list = Inr (saved, clip_embeddings)"
  shows "length clip_embeddings = length dirs
    \<and> (\<exists>most_visible. scan_frames resize seq dirs [] [] image_list = Inr (saved, most_visible)
          \<and> fst ` set most_visible = set dirs
          \<and> (\<forall>r<length dirs. \<exists>stored image_im mask_im masked.
                map_of most_visible (sort dirs ! r) = Some stored
              \<and> image_files seq (snd stored) = Some image_im
              \<and> mask_files seq (sort dirs ! r) (snd stored) = Some mask_im
              \<and> masked_image mask_im image_im = Inr masked
              \<and> clip_embeddings ! r = Row (clip masked)))
    \<and> (\<forall>dirs'. distinct dirs' \<and> set dirs' = set dirs \<longrightarrow> dir_to_idx dirs' = dir_to_idx dirs)"
proof -
  from assms(4) obtain mv where sc: "scan_frames resize seq dirs [] [] image_list = Inr (saved, mv)"
    and em: "embed_objects clip seq (dir_to_idx dirs) (replicate (length mv) Zeros) mv
               = Inr clip_embeddings"
    by (auto simp add: extract_features_def assms(1) split: sum.splits)
  from scan_frames_keys [OF sc] assms(3) have keys: "fst ` set mv = set dirs"
    and dist: "distinct (map fst mv)"
    by simp_all
  have "length mv = card (fst ` set mv)"
    using distinct_card [OF dist] by simp
  also have "\<dots> = length dirs"
    unfolding keys using assms(2) by (rule distinct_card)
  finally have len: "length mv = length dirs" .
  have inj: "inj_on (dir_to_idx dirs) (fst ` set mv)"
    unfolding keys by (rule dir_to_idx_inj [OF assms(2)])
  note rows = embed_objects_rows [OF em dist inj]
  have row: "\<exists>stored image_im mask_im masked.
                map_of mv (sort dirs ! r) = Some stored
              \<and> image_files seq (snd stored) = Some image_im
              \<and> mask_files seq (sort dirs ! r) (snd stored) = Some mask_im
              \<and> masked_image mask_im image_im = Inr masked
              \<and> clip_embeddings ! r = Row (clip masked)"
    if r: "r < length dirs" for r
  proof -
    let ?d = "sort dirs ! r"
    have "?d \<in> set (sort dirs)"
      using r by (intro nth_mem) simp
    then have "?d \<in> fst ` set mv"
      using keys by simp
    then obtain stored where st: "(?d, stored) \<in> set mv"
      by auto
    with rows obtain i image_im mask_im masked where "dir_to_idx dirs ?d = Some i"
      and "image_files seq (snd stored) = Some image_im"
      and "mask_files seq ?d (snd stored) = Some mask_im"
      and "masked_image mask_im image_im = Inr masked"
      and "clip_embeddings ! i = Row (clip masked)"
      by blast
    moreover have "dir_to_idx dirs ?d = Some r"
      by (rule dir_to_idx_nth [OF assms(2) r])
    moreover have "map_of mv ?d = Some stored"
      using dist st by (rule map_of_is_SomeI)
    ultimately show ?thesis
      by auto
  qed
  have "length clip_embeddings = length dirs"
    using rows len by simp
  moreover have "dir_to_idx dirs' = dir_to_idx dirs"
    if "distinct dirs' \<and> set dirs' = set dirs" for dirs'
    using that assms(2) by (intro dir_to_idx_discovery) simp_all
  ultimately show ?thesis
    using sc keys row by blast
qed

theorem embedding_rows_sorted_witness:
  "mask_dirs full_seq = Some [''table'', ''chair'']
   \<and> distinct [''table'', ''chair'']
   \<and> [(14::int, 14::int, ''0001.png''), (14, 14, ''0002.png'')] \<noteq> []
   \<and> sort [''table'', ''chair''] = [''chair'', ''table'']
   \<and> map_sum id snd (extract_features keep_size raw_pixels full_seq
         [(14, 14, ''0001.png''), (14, 14, ''0002.png'')])
       = Inr [Row [0, 0, 0, 4, 5, 6], Row [0, 0, 0, 40, 50, 60]]"
proof -
  have md: "mask_dirs full_seq = Some [''table'', ''chair'']"
    by (simp add: full_seq_def)
  have di: "distinct [''table'', ''chair'']"
    by simp
  have ne: "[(14::int, 14::int, ''0001.png''), (14, 14, ''0002.png'')] \<noteq> []"
    by simp
  have so: "sort [''table'', ''chair''] = [''chair'', ''table'']"
    by simp
  have ev: "extract_features keep_size raw_pixels full_seq
         [(14, 14, ''0001.png''), (14, 14, ''0002.png'')]
       = Inr ([(''0001.png'', \<lparr>grid_height = 14, grid_width = 14, grid_rows = 1, grid_cols = 1,
                   crop = \<lparr>padding_top = 0, padding_bottom = 0,
                            padding_left = 0, padding_right = 0\<rparr>\<rparr>),
               (''0002.png'', \<lparr>grid_height = 14, grid_width = 14, grid_rows = 1, grid_cols = 1,
                   crop = \<lparr>padding_top = 0, padding_bottom = 0,
                            padding_left = 0, padding_right = 0\<rparr>\<rparr>)],
              [Row [0, 0, 0, 4, 5, 6], Row [0, 0, 0, 40, 50, 60]])"
    by (simp add: full_seq_def zero_mask_def binary_mask_def small_image_def other_image_def
      keep_size_def raw_pixels_def
      extract_features_def grid_align_Inr reflection_pad_def visibility_score_def binarize_def
      divisor_def amax_def floordiv_def asum_def update_most_visible_def dir_to_idx_def
      masked_image_def multiply_def broadcast_dim_def item_def entry_def upt_6)
  have "length [Row [0, 0, 0, 4, 5, 6], Row [0, 0, 0, 40, 50, 60 :: 8 word]]
      = length [''table'', ''chair'']"
    using embedding_rows_sorted [OF md di ne ev] by blast
  with md di ne so ev show ?thesis
    by simp
qed

text \<open>
  C4 as stated fails: on a frame of 14 by 14, an object whose only mask is all zero,
  hence of score 0, still gets its row.
\<close>

theorem zero_score_row_counterexample:
  "mask_dirs zero_seq = Some [''chair'']
   \<and> mask_files zero_seq ''chair'' ''0001.png'' = Some zero_mask
   \<and> visibility_score zero_mask = Inr 0
   \<and> map_sum id snd (extract_features keep_size raw_pixels zero_seq [(14, 14, ''0001.png'')])
       = Inr [Row [0, 0, 0, 0, 0, 0]]"
  by (simp add: zero_seq_def zero_mask_def small_image_def keep_size_def raw_pixels_def
      extract_features_def grid_align_Inr reflection_pad_def visibility_score_def binarize_def
      divisor_def amax_def floordiv_def asum_def update_most_visible_def dir_to_idx_def
      masked_image_def multiply_def broadcast_dim_def item_def entry_def upt_6)

subsection \<open>Claim on the driver\<close>

text \<open>
  C9. With the default \<^verbatim>\<open>downsample\<close> of \<open>-1\<close>, the loop over the files raises
  \<^verbatim>\<open>NameError\<close> as soon as an image is higher than 1080, since \<^verbatim>\<open>WARNED\<close> is read
  before any assignment; when no image is higher than 1080 the branch is not reached
  and every image keeps its size.
\<close>

theorem warned_name_error:
  "load_images (- 1) None [] files =
     (if \<exists>(orig_h, orig_w, file)\<in>set files. 1080 < orig_h then Inl NameError
      else Inr files)
   \<and> main resize clip seq (- 1) files =
     (if \<exists>(orig_h, orig_w, file)\<in>set files. 1080 < orig_h then Inl NameError
      else extract_features resize clip seq files)"
  by (simp add: main_def load_images_default)

theorem warned_name_error_witness:
  "load_images (- 1) None [] [(720, 1280, ''0001.png''), (2160, 3840, ''0002.png'')]
     = Inl NameError
   \<and> main keep_size raw_pixels full_seq (- 1)
       [(720, 1280, ''0001.png''), (2160, 3840, ''0002.png'')] = Inl NameError
   \<and> load_images (- 1) None [] [(720, 1280, ''0001.png''), (1080, 1920, ''0002.png'')]
     = Inr [(720, 1280, ''0001.png''), (1080, 1920, ''0002.png'')]"
  using warned_name_error [of "[(720, 1280, ''0001.png''), (2160, 3840, ''0002.png'')]" keep_size raw_pixels full_seq]
    warned_name_error [of "[(720, 1280, ''0001.png''), (1080, 1920, ''0002.png'')]" keep_size raw_pixels full_seq]
  by simp

end
